theory Spec2Isabelle
  imports Complex_Main
begin

section \<open>The node tree that \<open>src/utils/dom-utils.js\<close> works on\<close>

text \<open>
  \<open>ContentExtractor\<close> reads and writes the browser's DOM. The part of the DOM it
  touches is modelled here: documents, elements with an ordered attribute list, and text
  nodes. Every node carries its identity (\<open>nid\<close>), the thing a JavaScript reference
  points at: two nodes with the same tag, attributes and children are still two objects.
  Comments and processing instructions are left out; they contribute nothing to
  \<open>textContent\<close> of an element, are not elements, and no function of the class asks
  for them.

  Strings are lists of 8-bit characters, one \<open>char\<close> standing for one UTF-16 code
  unit below 256; \<open>length\<close> is JavaScript's \<open>.length\<close> on such strings.
  Tag and attribute names are the lower-case names an HTML document stores.
\<close>

type_synonym attribute = "string \<times> string"

datatype node =
    Document nat "node list"
  | Element nat string "attribute list" "node list"
  | Text nat string

fun nid :: "node \<Rightarrow> nat" where
  "nid (Document i cs) = i"
| "nid (Element i t as cs) = i"
| "nid (Text i s) = i"

fun children :: "node \<Rightarrow> node list" where
  "children (Document i cs) = cs"
| "children (Element i t as cs) = cs"
| "children (Text i s) = []"

fun tagOf :: "node \<Rightarrow> string" where
  "tagOf (Document i cs) = []"
| "tagOf (Element i t as cs) = t"
| "tagOf (Text i s) = []"

fun attributesOf :: "node \<Rightarrow> attribute list" where
  "attributesOf (Document i cs) = []"
| "attributesOf (Element i t as cs) = as"
| "attributesOf (Text i s) = []"

fun isElement :: "node \<Rightarrow> bool" where
  "isElement (Document i cs) = False"
| "isElement (Element i t as cs) = True"
| "isElement (Text i s) = False"

text \<open>
  \<open>node.textContent\<close>: the data of a text node; for an element the concatenation of
  the data of its text descendants in tree order. (The DOM gives \<open>null\<close> for a
  document; the class never asks a document for it.)
\<close>

fun textContent :: "node \<Rightarrow> string" where
  "textContent (Document i cs) = []"
| "textContent (Element i t as cs) = concat (map textContent cs)"
| "textContent (Text i s) = s"

text \<open>
  The elements among a node and its descendants, in tree order (preorder, depth first),
  and the elements strictly below a node: what \<open>querySelectorAll('*')\<close> called on
  that node ranges over.
\<close>

fun inclusiveDescendants :: "node \<Rightarrow> node list" where
  "inclusiveDescendants (Document i cs) = concat (map inclusiveDescendants cs)"
| "inclusiveDescendants (Element i t as cs) =
     Element i t as cs # concat (map inclusiveDescendants cs)"
| "inclusiveDescendants (Text i s) = []"

definition descendants :: "node \<Rightarrow> node list" where
  "descendants n = concat (map inclusiveDescendants (children n))"

subsection \<open>Strings: \<open>trim\<close>, class tokens, substrings\<close>

text \<open>
  \<open>String.prototype.trim\<close> strips WhiteSpace and LineTerminator code units from both
  ends. Below 256 these are TAB, LF, VT, FF, CR, SPACE and NBSP.
\<close>

definition isWhiteSpace :: "char \<Rightarrow> bool" where
  "isWhiteSpace c =
     (c = CHR 0x09 \<or> c = CHR 0x0A \<or> c = CHR 0x0B \<or> c = CHR 0x0C \<or> c = CHR 0x0D
      \<or> c = CHR 0x20 \<or> c = CHR 0xA0)"

definition trim :: "string \<Rightarrow> string" where
  "trim s = rev (dropWhile isWhiteSpace (rev (dropWhile isWhiteSpace s)))"

text \<open>
  A class selector looks for its name among the tokens of the \<open>class\<close> attribute,
  split at ASCII whitespace (TAB, LF, FF, CR, SPACE).
\<close>

definition isAsciiWhitespace :: "char \<Rightarrow> bool" where
  "isAsciiWhitespace c =
     (c = CHR 0x09 \<or> c = CHR 0x0A \<or> c = CHR 0x0C \<or> c = CHR 0x0D \<or> c = CHR 0x20)"

primrec splitTokens :: "string \<Rightarrow> string \<Rightarrow> string list" where
  "splitTokens [] cur = (if cur = [] then [] else [cur])"
| "splitTokens (c # cs) cur =
     (if isAsciiWhitespace c
      then (if cur = [] then splitTokens cs [] else cur # splitTokens cs [])
      else splitTokens cs (cur @ [c]))"

definition classTokens :: "string \<Rightarrow> string list" where
  "classTokens v = splitTokens v []"

primrec containsSubstring :: "string \<Rightarrow> string \<Rightarrow> bool" where
  "containsSubstring sub [] = (sub = [])"
| "containsSubstring sub (c # cs) =
     (take (length sub) (c # cs) = sub \<or> containsSubstring sub cs)"

subsection \<open>Selectors\<close>

text \<open>
  The selectors the class uses are type selectors (\<open>article\<close>), class selectors
  (\<open>.content\<close>), id selectors (\<open>#content\<close>), attribute selectors with \<open>=\<close>
  and \<open>*=\<close>, the universal selector and a comma-separated list. None has a
  combinator, so whether an element matches depends on its own tag and attributes only.
\<close>

datatype selector =
    TagSel string
  | ClassSel string
  | IdSel string
  | AttrEquals string string
  | AttrContains string string
  | Universal
  | Comma selector selector

definition getAttribute :: "string \<Rightarrow> attribute list \<Rightarrow> string option" where
  "getAttribute name as = map_of as name"

fun matchesElement :: "selector \<Rightarrow> string \<Rightarrow> attribute list \<Rightarrow> bool" where
  "matchesElement (TagSel t) tg as = (tg = t)"
| "matchesElement (ClassSel c) tg as =
     (case getAttribute ''class'' as of None \<Rightarrow> False | Some v \<Rightarrow> c \<in> set (classTokens v))"
| "matchesElement (IdSel i) tg as =
     (case getAttribute ''id'' as of None \<Rightarrow> False | Some v \<Rightarrow> v = i)"
| "matchesElement (AttrEquals a x) tg as =
     (case getAttribute a as of None \<Rightarrow> False | Some v \<Rightarrow> v = x)"
| "matchesElement (AttrContains a x) tg as =
     (case getAttribute a as of None \<Rightarrow> False | Some v \<Rightarrow> x \<noteq> [] \<and> containsSubstring x v)"
| "matchesElement Universal tg as = True"
| "matchesElement (Comma s1 s2) tg as = (matchesElement s1 tg as \<or> matchesElement s2 tg as)"

fun matches :: "selector \<Rightarrow> node \<Rightarrow> bool" where
  "matches sel (Document i cs) = False"
| "matches sel (Element i t as cs) = matchesElement sel t as"
| "matches sel (Text i s) = False"

text \<open>
  \<open>node.querySelectorAll(sel)\<close>: the descendants of the node that match, in tree
  order. \<open>node.querySelector(sel)\<close>: the first of them, or \<open>null\<close>.
\<close>

definition querySelectorAll :: "selector \<Rightarrow> node \<Rightarrow> node list" where
  "querySelectorAll sel n = filter (matches sel) (descendants n)"

definition querySelector :: "selector \<Rightarrow> node \<Rightarrow> node option" where
  "querySelector sel n = List.find (matches sel) (descendants n)"

section \<open>\<open>ContentExtractor\<close>: the configuration of the constructor\<close>

definition contentSelectors :: "selector list" where
  "contentSelectors =
     [TagSel ''article'',
      AttrEquals ''role'' ''main'',
      ClassSel ''post-content'',
      ClassSel ''entry-content'',
      ClassSel ''article-content'',
      ClassSel ''content'',
      ClassSel ''main-content'',
      IdSel ''content'',
      ClassSel ''post-body'',
      ClassSel ''article-body'']"

definition noiseSelectors :: "selector list" where
  "noiseSelectors =
     [TagSel ''header'', TagSel ''nav'', TagSel ''aside'', TagSel ''footer'',
      ClassSel ''advertisement'', ClassSel ''ads'', ClassSel ''sidebar'',
      ClassSel ''social-share'', ClassSel ''comments'', ClassSel ''related-posts'',
      ClassSel ''popup'', ClassSel ''modal'', ClassSel ''overlay'',
      AttrContains ''class'' ''ad-'', AttrContains ''id'' ''ad-'',
      AttrContains ''class'' ''banner'', AttrContains ''class'' ''promo'',
      ClassSel ''cookie-notice'', ClassSel ''newsletter'',
      ClassSel ''share-buttons'', ClassSel ''social-buttons'']"

definition textDensityThreshold :: rat where
  "textDensityThreshold = 25"

section \<open>The locator\<close>

text \<open>
  The functions of the locator read the global \<open>document\<close>; here it is their
  argument. They are given the document and elements of it; the model is defined on every
  node.

  JavaScript numbers are doubles. Every number below is an integer (a length or a count)
  or the quotient of two of them. The comparisons of such a quotient with 25 and with 0.5
  come out on doubles as they do on the exact quotients for every length and count below
  \<open>2^49\<close>; the comparison of two densities does as long as the text length of one
  element times the element count of the other stays below \<open>2^52\<close>. Scores are
  rationals here.
\<close>

text \<open>
  The summed \<open>link.textContent.length\<close> over the \<open>a\<close> descendants: the
  \<open>reduce\<close> of \<open>calculateTextDensity\<close> and of \<open>isValidContent\<close>. The text
  of a link is not trimmed, and a link inside a link is counted in both.
\<close>

definition linkTextLength :: "node \<Rightarrow> nat" where
  "linkTextLength element =
     foldl (\<lambda>sum link. sum + length (textContent link)) 0
       (querySelectorAll (TagSel ''a'') element)"

definition calculateTextDensity :: "node \<Rightarrow> rat" where
  "calculateTextDensity element =
     (let textLength = length (trim (textContent element));
          linkLength = linkTextLength element;
          textDensity = int textLength - int linkLength;
          tagCount = length (querySelectorAll Universal element)
      in if tagCount > 0 then of_int textDensity / of_nat tagCount else 0)"

fun isValidContent :: "node option \<Rightarrow> bool" where
  "isValidContent None = False"
| "isValidContent (Some element) =
     (let text = trim (textContent element) in
      if length text < 100 then False
      else
        let linkRatio = (of_nat (linkTextLength element) :: rat) / of_nat (length text)
        in if linkRatio > 1 / 2 then False else True)"

text \<open>The \<open>for\<close> loop of \<open>findContentBySelectors\<close> over the selectors left.\<close>

fun findContentBySelectorsFrom :: "selector list \<Rightarrow> node \<Rightarrow> node option" where
  "findContentBySelectorsFrom [] document = None"
| "findContentBySelectorsFrom (selector # rest) document =
     (let element = querySelector selector document in
      if element \<noteq> None \<and> isValidContent element then element
      else findContentBySelectorsFrom rest document)"

definition findContentBySelectors :: "node \<Rightarrow> node option" where
  "findContentBySelectors document = findContentBySelectorsFrom contentSelectors document"

text \<open>
  The body of the \<open>forEach\<close> of \<open>findContentByTextDensity\<close>, on the pair of the
  two variables it assigns, \<open>(bestCandidate, bestScore)\<close>.
\<close>

definition densityStep :: "node \<Rightarrow> node option \<times> rat \<Rightarrow> node option \<times> rat" where
  "densityStep element best =
     (let score = calculateTextDensity element in
      if score > snd best \<and> score > textDensityThreshold then (Some element, score)
      else best)"

text \<open>The selector \<open>'div, section, main'\<close>.\<close>

definition densityCandidates :: selector where
  "densityCandidates = Comma (TagSel ''div'') (Comma (TagSel ''section'') (TagSel ''main''))"

definition findContentByTextDensity :: "node \<Rightarrow> node option" where
  "findContentByTextDensity document =
     (let candidates = querySelectorAll densityCandidates document
      in fst (fold densityStep candidates (None, 0)))"

text \<open>
  The body of the \<open>forEach\<close> of \<open>findLargestTextBlock\<close>, on
  \<open>(largestElement, maxTextLength)\<close>.
\<close>

definition largestStep :: "node \<Rightarrow> node option \<times> nat \<Rightarrow> node option \<times> nat" where
  "largestStep element largest =
     (let textLength = length (trim (textContent element)) in
      if textLength > snd largest \<and> isValidContent (Some element) then (Some element, textLength)
      else largest)"

definition findLargestTextBlock :: "node \<Rightarrow> node option" where
  "findLargestTextBlock document =
     (let allElements = querySelectorAll Universal document
      in fst (fold largestStep allElements (None, 0)))"

text \<open>
  \<open>extractMainContent\<close>, with the stages it ran: the second and third stage are
  called only under \<open>if (!content)\<close>.
\<close>

datatype stage = BySelectors | ByTextDensity | LargestTextBlock

definition extractMainContentRun :: "node \<Rightarrow> stage list \<times> node option" where
  "extractMainContentRun document =
     (case findContentBySelectors document of
        Some content \<Rightarrow> ([BySelectors], Some content)
      | None \<Rightarrow>
          (case findContentByTextDensity document of
             Some content \<Rightarrow> ([BySelectors, ByTextDensity], Some content)
           | None \<Rightarrow>
               ([BySelectors, ByTextDensity, LargestTextBlock], findLargestTextBlock document)))"

definition extractMainContent :: "node \<Rightarrow> node option" where
  "extractMainContent document = snd (extractMainContentRun document)"

section \<open>The sanitizer\<close>

subsection \<open>The DOM operations it calls\<close>

text \<open>
  The sanitizer writes to nodes through references, so the model keeps the trees that
  exist and addresses a write by the identity of the node written to. \<open>trees\<close> holds
  the root of every tree that exists when \<open>cleanContent\<close> is called (the document
  among them); \<open>nextId\<close> is the identity the next created node gets.
\<close>

record domState =
  trees :: "node list"
  nextId :: nat

text \<open>
  \<open>node.cloneNode(deep)\<close> creates new nodes: a copy of the node with its attributes
  and, when \<open>deep\<close>, copies of all its descendants. The copy has no parent.
\<close>

fun cloneTree :: "bool \<Rightarrow> node \<Rightarrow> nat \<Rightarrow> node \<times> nat"
  and cloneTrees :: "node list \<Rightarrow> nat \<Rightarrow> node list \<times> nat" where
  "cloneTree deep (Document i cs) n =
     (if deep then (let (cs', n') = cloneTrees cs (Suc n) in (Document n cs', n'))
      else (Document n [], Suc n))"
| "cloneTree deep (Element i t as cs) n =
     (if deep then (let (cs', n') = cloneTrees cs (Suc n) in (Element n t as cs', n'))
      else (Element n t as [], Suc n))"
| "cloneTree deep (Text i s) n = (Text n s, Suc n)"
| "cloneTrees [] n = ([], n)"
| "cloneTrees (c # cs) n =
     (let (c', n1) = cloneTree True c n; (cs', n2) = cloneTrees cs n1 in (c' # cs', n2))"

definition cloneNode :: "bool \<Rightarrow> node \<Rightarrow> domState \<Rightarrow> node \<times> domState" where
  "cloneNode deep node s =
     (let (copy, n) = cloneTree deep node (nextId s) in (copy, s\<lparr>nextId := n\<rparr>))"

text \<open>
  The three writes, each on one tree and addressed to the node with identity \<open>i\<close>.
  \<open>el.remove()\<close> takes the node out of its parent's children; a node without a
  parent (the root of a tree) stays where it is. The subtree taken out can no longer be
  reached from the tree it was in and is dropped.
\<close>

fun removeNode :: "nat \<Rightarrow> node \<Rightarrow> node" where
  "removeNode i (Document k cs) =
     Document k (filter (\<lambda>c. nid c \<noteq> i) (map (removeNode i) cs))"
| "removeNode i (Element k t as cs) =
     Element k t as (filter (\<lambda>c. nid c \<noteq> i) (map (removeNode i) cs))"
| "removeNode i (Text k s) = Text k s"

fun updateAttributes :: "nat \<Rightarrow> (attribute list \<Rightarrow> attribute list) \<Rightarrow> node \<Rightarrow> node" where
  "updateAttributes i f (Document k cs) = Document k (map (updateAttributes i f) cs)"
| "updateAttributes i f (Element k t as cs) =
     Element k t (if k = i then f as else as) (map (updateAttributes i f) cs)"
| "updateAttributes i f (Text k s) = Text k s"

primrec setAttributeIn :: "string \<Rightarrow> string \<Rightarrow> attribute list \<Rightarrow> attribute list" where
  "setAttributeIn name v [] = [(name, v)]"
| "setAttributeIn name v (a # as) =
     (if fst a = name then (name, v) # as else a # setAttributeIn name v as)"

definition removeAttributeIn :: "string \<Rightarrow> attribute list \<Rightarrow> attribute list" where
  "removeAttributeIn name as = filter (\<lambda>a. fst a \<noteq> name) as"

text \<open>
  While \<open>cleanContent\<close> runs, the state is the tree under its local variable
  \<open>cleanedContent\<close> together with the trees that existed before. A write goes to
  whichever node has the identity written to, in any of them.
\<close>

type_synonym sanitizerState = "node \<times> domState"

definition onAllTrees :: "(node \<Rightarrow> node) \<Rightarrow> sanitizerState \<Rightarrow> sanitizerState" where
  "onAllTrees f st = (f (fst st), (snd st)\<lparr>trees := map f (trees (snd st))\<rparr>)"

definition removeElement :: "nat \<Rightarrow> sanitizerState \<Rightarrow> sanitizerState" where
  "removeElement i = onAllTrees (removeNode i)"

definition removeAttribute :: "nat \<Rightarrow> string \<Rightarrow> sanitizerState \<Rightarrow> sanitizerState" where
  "removeAttribute i name = onAllTrees (updateAttributes i (removeAttributeIn name))"

definition setAttribute :: "nat \<Rightarrow> string \<Rightarrow> string \<Rightarrow> sanitizerState \<Rightarrow> sanitizerState" where
  "setAttribute i name v = onAllTrees (updateAttributes i (setAttributeIn name v))"

text \<open>
  \<open>document.createTreeWalker(root, NodeFilter.SHOW_ELEMENT, null, false)\<close>. A tree
  walker starts with \<open>currentNode = root\<close>; \<open>nextNode()\<close> moves to the next
  element after the current node in tree order, inside the root's subtree, and returns
  it, or returns \<open>null\<close> and stays when there is none. The walk is kept as the list
  of the nodes it can stand on (the root, then the elements below it in tree order) and
  the index of the current one.
\<close>

record treeWalker =
  walk :: "node list"
  currentIndex :: nat

definition createTreeWalker :: "node \<Rightarrow> treeWalker" where
  "createTreeWalker rootNode = \<lparr>walk = rootNode # descendants rootNode, currentIndex = 0\<rparr>"

definition nextNode :: "treeWalker \<Rightarrow> node option \<times> treeWalker" where
  "nextNode w =
     (if Suc (currentIndex w) < length (walk w)
      then (Some (walk w ! Suc (currentIndex w)), w\<lparr>currentIndex := Suc (currentIndex w)\<rparr>)
      else (None, w))"

text \<open>
  The getters of an \<open>img\<close> element that \<open>optimizeImages\<close> reads. \<open>img.loading\<close>
  reflects the \<open>loading\<close> attribute limited to its known values: \<open>lazy\<close> when the
  attribute says so (in any letter case), \<open>eager\<close> otherwise, also when the attribute
  is missing. \<open>img.alt\<close> is the value of the \<open>alt\<close> attribute, empty when it is
  missing.
\<close>

definition toLowerAscii :: "char \<Rightarrow> char" where
  "toLowerAscii c =
     (if 65 \<le> (of_char c :: nat) \<and> (of_char c :: nat) \<le> 90 then char_of (of_char c + 32 :: nat)
      else c)"

definition imgLoading :: "node \<Rightarrow> string" where
  "imgLoading img =
     (case getAttribute ''loading'' (attributesOf img) of
        None \<Rightarrow> ''eager''
      | Some v \<Rightarrow> if map toLowerAscii v = ''lazy'' then ''lazy'' else ''eager'')"

definition imgAlt :: "node \<Rightarrow> string" where
  "imgAlt img = (case getAttribute ''alt'' (attributesOf img) of None \<Rightarrow> [] | Some v \<Rightarrow> v)"

subsection \<open>\<open>cleanAttributes\<close>, \<open>optimizeImages\<close>, \<open>cleanContent\<close>\<close>

definition allowedAttributes :: "string list" where
  "allowedAttributes = [''src'', ''alt'', ''href'', ''title'']"

text \<open>The loop \<open>while (node = walker.nextNode()) elements.push(node)\<close>.\<close>

function collectElements :: "treeWalker \<Rightarrow> node list \<Rightarrow> node list" where
  "collectElements walker elements =
     (case nextNode walker of
        (None, walker') \<Rightarrow> elements
      | (Some node, walker') \<Rightarrow> collectElements walker' (elements @ [node]))"
  by pat_completeness auto
termination
  by (relation "measure (\<lambda>(w, els). length (walk w) - currentIndex w)")
     (auto simp: nextNode_def split: if_splits)

text \<open>
  An entry of a node list is a reference; the attributes read from it are the ones the
  node has when its turn comes, since the turns before it wrote to other nodes only.
\<close>

definition cleanAttributes :: "sanitizerState \<Rightarrow> sanitizerState" where
  "cleanAttributes st =
     (let walker = createTreeWalker (fst st);
          elements = collectElements walker []
      in fold (\<lambda>el. fold (\<lambda>attr st'.
                   if fst attr \<notin> set allowedAttributes
                   then removeAttribute (nid el) (fst attr) st' else st')
                 (attributesOf el))
           elements st)"

text \<open>
  The placeholder \<open>alt\<close> text of the source is two Chinese characters; it is written
  here as the six bytes of its UTF-8 form. Only its being non-empty matters below.
\<close>

definition altPlaceholder :: string where
  "altPlaceholder = [CHR 0xE5, CHR 0x9B, CHR 0xBE, CHR 0xE7, CHR 0x89, CHR 0x87]"

definition optimizeImage :: "node \<Rightarrow> sanitizerState \<Rightarrow> sanitizerState" where
  "optimizeImage img st =
     (let st1 = (if imgLoading img = [] then setAttribute (nid img) ''loading'' ''lazy'' st else st);
          st2 = (if imgAlt img = [] then setAttribute (nid img) ''alt'' altPlaceholder st1 else st1)
      in removeAttribute (nid img) ''style'' st2)"

definition optimizeImages :: "sanitizerState \<Rightarrow> sanitizerState" where
  "optimizeImages st = fold optimizeImage (querySelectorAll (TagSel ''img'') (fst st)) st"

definition removeNoise :: "sanitizerState \<Rightarrow> sanitizerState" where
  "removeNoise st =
     fold (\<lambda>selector st'.
             let elements = querySelectorAll selector (fst st')
             in fold (\<lambda>el. removeElement (nid el)) elements st')
       noiseSelectors st"

definition cleanContent :: "node option \<Rightarrow> domState \<Rightarrow> node option \<times> domState" where
  "cleanContent content s =
     (case content of
        None \<Rightarrow> (None, s)
      | Some c \<Rightarrow>
          let st0 = cloneNode True c s;
              st1 = removeNoise st0;
              st2 = cleanAttributes st1;
              st3 = optimizeImages st2
          in (Some (fst st3), snd st3))"

section \<open>What the code can throw\<close>

text \<open>
  A JavaScript call ends in a value or in an exception. Reading a property of
  \<open>null\<close> and calling what is not a function throw a \<open>TypeError\<close>:
  \<open>x.textContent.trim()\<close> throws when \<open>x\<close> is \<open>null\<close> and when \<open>x\<close> is
  a document, whose \<open>textContent\<close> is \<open>null\<close>; \<open>x.querySelectorAll(..)\<close>
  throws when \<open>x\<close> is \<open>null\<close> and when \<open>x\<close> is a text node, which has no
  such method. The functions of the class are written here once more with this outcome,
  in the order in which the source evaluates; the definitions above are their values
  when nothing throws.

  The selectors are the constants of the constructor, which the selector parser accepts.
  A property read is taken to reach the getter of the DOM: no form control named
  \<open>textContent\<close> or \<open>querySelectorAll\<close> stands in its way.
\<close>

datatype error = TypeError

text \<open>Sequencing: an exception ends the evaluation; a \<open>forEach\<close> stops at it.\<close>

definition bindE :: "error + 'a \<Rightarrow> ('a \<Rightarrow> error + 'b) \<Rightarrow> error + 'b" where
  "bindE m f = (case m of Inl e \<Rightarrow> Inl e | Inr x \<Rightarrow> f x)"


text \<open>
  \<open>x.textContent.trim()\<close>, \<open>x.querySelectorAll(sel)\<close> and
  \<open>x.querySelector(sel)\<close> on a value \<open>x\<close> that may be \<open>null\<close> or any node.
\<close>

fun trimmedTextOf :: "node option \<Rightarrow> error + string" where
  "trimmedTextOf None = Inl TypeError"
| "trimmedTextOf (Some (Document i cs)) = Inl TypeError"
| "trimmedTextOf (Some (Element i t as cs)) = Inr (trim (textContent (Element i t as cs)))"
| "trimmedTextOf (Some (Text i s)) = Inr (trim (textContent (Text i s)))"

fun querySelectorAllOf :: "selector \<Rightarrow> node option \<Rightarrow> error + node list" where
  "querySelectorAllOf sel None = Inl TypeError"
| "querySelectorAllOf sel (Some (Document i cs)) = Inr (querySelectorAll sel (Document i cs))"
| "querySelectorAllOf sel (Some (Element i t as cs)) = Inr (querySelectorAll sel (Element i t as cs))"
| "querySelectorAllOf sel (Some (Text i s)) = Inl TypeError"


text \<open>The locator, statement by statement as in the source.\<close>

definition isValidContentOutcome :: "node option \<Rightarrow> error + bool" where
  "isValidContentOutcome element =
     (if element = None then Inr False
      else bindE (trimmedTextOf element) (\<lambda>text.
        if length text < 100 then Inr False
        else bindE (querySelectorAllOf (TagSel ''a'') element) (\<lambda>links.
          let linkTextLength = foldl (\<lambda>sum link. sum + length (textContent link)) 0 links;
              linkRatio = (of_nat linkTextLength :: rat) / of_nat (length text)
          in if linkRatio > 1 / 2 then Inr False else Inr True)))"












section \<open>Vocabulary of the statements\<close>

text \<open>The identities of all nodes of a tree, and a tree with its identities erased.\<close>

fun idsOf :: "node \<Rightarrow> nat list" where
  "idsOf (Document i cs) = i # concat (map idsOf cs)"
| "idsOf (Element i t as cs) = i # concat (map idsOf cs)"
| "idsOf (Text i s) = [i]"

fun eraseIds :: "node \<Rightarrow> node" where
  "eraseIds (Document i cs) = Document 0 (map eraseIds cs)"
| "eraseIds (Element i t as cs) = Element 0 t as (map eraseIds cs)"
| "eraseIds (Text i s) = Text 0 s"

text \<open>
  What a selector without combinators sees of an element (its tag and attributes), with
  the identity of the element; and the relation of an element to an earlier state of
  itself (the same identity and tag) in which the \<open>class\<close> and \<open>id\<close> attributes
  were the same or are now gone.
\<close>

definition shallow :: "node \<Rightarrow> nat \<times> string \<times> attribute list" where
  "shallow e = (nid e, tagOf e, attributesOf e)"

definition keepsClassAndId :: "node \<Rightarrow> node \<Rightarrow> bool" where
  "keepsClassAndId e' e =
     (nid e' = nid e \<and> tagOf e' = tagOf e
      \<and> (getAttribute ''class'' (attributesOf e') = None
           \<or> getAttribute ''class'' (attributesOf e') = getAttribute ''class'' (attributesOf e))
      \<and> (getAttribute ''id'' (attributesOf e') = None
           \<or> getAttribute ''id'' (attributesOf e') = getAttribute ''id'' (attributesOf e)))"

fun readsTagClassIdOnly :: "selector \<Rightarrow> bool" where
  "readsTagClassIdOnly (TagSel t) = True"
| "readsTagClassIdOnly (ClassSel c) = True"
| "readsTagClassIdOnly (IdSel i) = True"
| "readsTagClassIdOnly (AttrEquals a x) = (a = ''class'' \<or> a = ''id'')"
| "readsTagClassIdOnly (AttrContains a x) = (a = ''class'' \<or> a = ''id'')"
| "readsTagClassIdOnly Universal = False"
| "readsTagClassIdOnly (Comma s1 s2) = (readsTagClassIdOnly s1 \<and> readsTagClassIdOnly s2)"

text \<open>
  One turn of the outer \<open>forEach\<close> of \<open>cleanAttributes\<close>, for the element
  \<open>el\<close>, as it acts on one tree.
\<close>

definition attributeTurn :: "node \<Rightarrow> node \<Rightarrow> node" where
  "attributeTurn el t =
     fold (\<lambda>attr t'. if fst attr \<notin> set allowedAttributes
                      then updateAttributes (nid el) (removeAttributeIn (fst attr)) t' else t')
       (attributesOf el) t"

text \<open>
  The density as the specification words it, to be compared with
  \<open>calculateTextDensity\<close>: the trimmed text length minus the summed trimmed text
  length of the link descendants, over the number of descendant elements floored to 1.
\<close>

definition densityAsSpecified :: "node \<Rightarrow> rat" where
  "densityAsSpecified element =
     (of_int (int (length (trim (textContent element)))
              - int (sum_list (map (\<lambda>link. length (trim (textContent link)))
                                 (querySelectorAll (TagSel ''a'') element))))
      / of_nat (max 1 (length (querySelectorAll Universal element))))"

text \<open>
  The validity filter as the specification words it, to be compared with
  \<open>isValidContent\<close>: \<open>total_text_length\<close> is the trimmed text length of the
  element and \<open>anchor_text_length\<close> the summed trimmed text length of its link
  descendants.
\<close>

definition validAsSpecified :: "node option \<Rightarrow> bool" where
  "validAsSpecified candidate =
     (case candidate of
        None \<Rightarrow> False
      | Some element \<Rightarrow>
          let total_text_length = length (trim (textContent element));
              anchor_text_length =
                sum_list (map (\<lambda>link. length (trim (textContent link)))
                            (querySelectorAll (TagSel ''a'') element))
          in if total_text_length < 100 then False
             else if (of_nat anchor_text_length :: rat) / of_nat total_text_length > 1 / 2
             then False else True)"

section \<open>Example trees\<close>

definition exTwoArticles :: node where
  "exTwoArticles =
     Document 0
       [Element 1 ''html'' []
          [Element 2 ''article'' [] [Text 3 ''short''],
           Element 4 ''article'' [] [Text 5 (replicate 120 CHR ''x'')]]]"

definition exContentClass :: node where
  "exContentClass =
     Document 0
       [Element 1 ''html'' []
          [Element 2 ''article'' [] [Text 3 ''short''],
           Element 4 ''div'' [(''class'', ''wide content'')] [Text 5 (replicate 120 CHR ''x'')]]]"

definition exTie :: node where
  "exTie =
     Document 0
       [Element 1 ''html'' []
          [Element 2 ''body'' []
             [Element 3 ''div'' [] [Element 4 ''p'' [] [Text 5 (replicate 30 CHR ''x'')]],
              Element 6 ''div'' [] [Element 7 ''p'' [] [Text 8 (replicate 30 CHR ''x'')]]]]]"

definition exParagraph :: node where
  "exParagraph =
     Document 0
       [Element 1 ''html'' []
          [Element 2 ''body'' [] [Element 3 ''p'' [] [Text 4 (replicate 120 CHR ''x'')]]]]"


definition exShort :: node where
  "exShort = Element 1 ''div'' [] [Element 2 ''a'' [] [Text 3 (replicate 99 CHR ''x'')]]"

definition exLinky :: node where
  "exLinky =
     Element 1 ''div'' []
       [Element 2 ''a'' [] [Text 3 (replicate 260 CHR ''x'')], Text 4 (replicate 240 CHR ''y'')]"

definition exHalf :: node where
  "exHalf =
     Element 1 ''div'' []
       [Element 2 ''a'' [] [Text 3 (replicate 50 CHR ''x'')], Text 4 (replicate 50 CHR ''y'')]"

text \<open>
  \<open><div><a>\<close> 60 spaces, 40 letters \<open></a>\<close> 70 letters \<open></div>\<close>: the link
  text is 100 long, and 40 long once trimmed.
\<close>

definition exPaddedLink :: node where
  "exPaddedLink =
     Element 1 ''div'' []
       [Element 2 ''a'' [] [Text 3 (replicate 60 CHR '' '' @ replicate 40 CHR ''x'')],
        Text 4 (replicate 70 CHR ''y'')]"

definition exNoTags :: node where
  "exNoTags = Element 1 ''div'' [] [Text 2 ''hello'']"

definition exBlankLink :: node where
  "exBlankLink = Element 1 ''div'' [] [Element 2 ''a'' [] [Text 3 ''   '']]"

definition exDense :: node where
  "exDense =
     Element 1 ''div'' []
       (Element 2 ''a'' [] [Text 3 (replicate 200 CHR ''x'')]
        # Text 4 (replicate 800 CHR ''y'')
        # map (\<lambda>k. Element k ''br'' [] []) [5..<44])"

definition exCandidate :: node where
  "exCandidate =
     Element 7 ''div''
       [(''src'', ''s''), (''onclick'', ''x()''), (''style'', ''c''), (''class'', ''k''), (''alt'', ''t'')]
       [Element 8 ''p''
          [(''src'', ''s''), (''onclick'', ''x()''), (''style'', ''c''), (''class'', ''k''), (''alt'', ''t'')]
          [Text 9 ''hi''],
        Element 10 ''section'' []
          [Element 11 ''div'' [] [Element 12 ''nav'' [(''id'', ''menu'')] [Text 13 ''links'']]],
        Element 14 ''img'' [(''style'', ''q''), (''loading'', ''LAZY'')] [],
        Element 15 ''div'' [(''class'', ''x sidebar'')] [Text 16 ''zz'']]"

definition exState :: domState where
  "exState = \<lparr>trees = [Document 0 [Element 1 ''html'' [] [exCandidate]]], nextId = 100\<rparr>"

definition exAside :: node where
  "exAside = Element 2 ''aside'' [(''class'', ''content'')] [Text 3 (replicate 120 CHR ''x'')]"

definition exAsideDocument :: node where
  "exAsideDocument = Document 0 [Element 1 ''html'' [] [exAside]]"

definition exFragment :: node where
  "exFragment =
     Element 100 ''div''
       [(''src'', ''s''), (''onclick'', ''x()''), (''style'', ''c''), (''class'', ''k''), (''alt'', ''t'')]
       [Element 101 ''p'' [(''src'', ''s''), (''alt'', ''t'')] [Text 102 ''hi''],
        Element 103 ''section'' [] [Element 104 ''div'' [] []],
        Element 107 ''img'' [(''alt'', altPlaceholder)] []]"

definition exAsideState :: domState where
  "exAsideState = \<lparr>trees = [exAsideDocument], nextId = 4\<rparr>"

definition exRoot :: node where
  "exRoot =
     Element 1 ''div''
       [(''src'', ''s''), (''onclick'', ''x()''), (''style'', ''c''), (''class'', ''k''), (''alt'', ''t'')]
       [Element 2 ''p''
          [(''src'', ''s''), (''onclick'', ''x()''), (''style'', ''c''), (''class'', ''k''), (''alt'', ''t'')]
          [Text 3 ''hi'']]"

definition exStaleState :: domState where
  "exStaleState = \<lparr>trees = [Document 0 [exRoot]], nextId = 1\<rparr>"

definition exRootState :: domState where
  "exRootState = \<lparr>trees = [Document 0 [exRoot]], nextId = 4\<rparr>"

section \<open>Lemmas on the tree and on strings\<close>

lemma trim_unchanged:
  assumes "s \<noteq> []" "\<not> isWhiteSpace (hd s)" "\<not> isWhiteSpace (last s)"
  shows "trim s = s"
proof -
  from assms have "dropWhile isWhiteSpace s = s" by (cases s) simp_all
  moreover from assms have "dropWhile isWhiteSpace (rev s) = rev s"
    by (cases "rev s") (simp_all add: hd_rev)
  ultimately show ?thesis by (simp add: trim_def)
qed

lemma inclusiveDescendants_elements: "e \<in> set (inclusiveDescendants n) \<Longrightarrow> isElement e"
  by (induction n rule: inclusiveDescendants.induct) auto

lemma descendants_elements: "e \<in> set (descendants n) \<Longrightarrow> isElement e"
  by (auto simp: descendants_def dest: inclusiveDescendants_elements)

lemma matches_Universal: "isElement e \<Longrightarrow> matches Universal e"
  by (cases e) simp_all

lemma querySelectorAll_Universal: "querySelectorAll Universal n = descendants n"
  by (simp add: querySelectorAll_def filter_id_conv descendants_elements matches_Universal)


lemma linkTextLength_sum:
  "linkTextLength e =
     sum_list (map (\<lambda>link. length (textContent link)) (querySelectorAll (TagSel ''a'') e))"
proof -
  have "foldl (\<lambda>sum link. sum + length (textContent link)) a xs
        = a + sum_list (map (\<lambda>link. length (textContent link)) xs)" for a and xs :: "node list"
    by (induction xs arbitrary: a) simp_all
  then show ?thesis by (simp add: linkTextLength_def)
qed

lemma querySelector_Some:
  assumes "querySelector sel n = Some e"
  shows "matches sel e \<and> e \<in> set (descendants n)"
  using assms by (auto simp: querySelector_def find_Some_iff)

section \<open>The locator: lemmas\<close>

text \<open>
  Both scans of the locator are the same loop: keep the first element whose score is
  above everything seen so far and that passes a test. When every element that passes
  the test scores above the initial value, the loop ends on the first element of maximum
  score among those that pass.
\<close>

lemma scan_first_maximum:
  fixes f :: "'a \<Rightarrow> 'b::linorder"
  assumes pos: "\<forall>x. P x \<longrightarrow> s0 < f x"
  shows "(fold (\<lambda>x acc. if snd acc < f x \<and> P x then (Some x, f x) else acc) xs (None, s0) = (None, s0)
            \<and> (\<forall>x\<in>set xs. \<not> P x))
         \<or> (\<exists>i<length xs.
               fold (\<lambda>x acc. if snd acc < f x \<and> P x then (Some x, f x) else acc) xs (None, s0)
                 = (Some (xs ! i), f (xs ! i))
               \<and> P (xs ! i)
               \<and> (\<forall>j<length xs. P (xs ! j) \<longrightarrow> f (xs ! j) \<le> f (xs ! i))
               \<and> (\<forall>j<i. P (xs ! j) \<longrightarrow> f (xs ! j) < f (xs ! i)))"
    (is "?none xs \<or> ?some xs")
proof (induction xs rule: rev_induct)
  case Nil
  show ?case by simp
next
  case (snoc x xs)
  let ?step = "\<lambda>x acc. if snd acc < f x \<and> P x then (Some x, f x) else acc"
  from snoc.IH show ?case
  proof
    assume none: "?none xs"
    show ?thesis
    proof (cases "P x")
      case True
      with pos have "s0 < f x" by simp
      with none True have "?some (xs @ [x])"
        by (intro exI[of _ "length xs"]) (auto simp: nth_append)
      then show ?thesis ..
    next
      case False
      with none have "?none (xs @ [x])" by simp
      then show ?thesis ..
    qed
  next
    assume "?some xs"
    then obtain i where i: "i < length xs"
      and res: "fold ?step xs (None, s0) = (Some (xs ! i), f (xs ! i))"
      and Pi: "P (xs ! i)"
      and mx: "\<forall>j<length xs. P (xs ! j) \<longrightarrow> f (xs ! j) \<le> f (xs ! i)"
      and fst: "\<forall>j<i. P (xs ! j) \<longrightarrow> f (xs ! j) < f (xs ! i)"
      by blast
    show ?thesis
    proof (cases "f (xs ! i) < f x \<and> P x")
      case True
      have "?some (xs @ [x])"
      proof (intro exI[of _ "length xs"] conjI allI impI)
        show "length xs < length (xs @ [x])" by simp
        show "fold ?step (xs @ [x]) (None, s0) = (Some ((xs @ [x]) ! length xs), f ((xs @ [x]) ! length xs))"
          using res True by simp
        show "P ((xs @ [x]) ! length xs)" using True by simp
      next
        fix j assume "j < length (xs @ [x])" "P ((xs @ [x]) ! j)"
        then show "f ((xs @ [x]) ! j) \<le> f ((xs @ [x]) ! length xs)"
          using mx True by (cases "j < length xs") (auto simp: nth_append less_Suc_eq intro: order.trans less_imp_le)
      next
        fix j assume "j < length xs" "P ((xs @ [x]) ! j)"
        then show "f ((xs @ [x]) ! j) < f ((xs @ [x]) ! length xs)"
          using mx True by (auto simp: nth_append intro: le_less_trans)
      qed
      then show ?thesis ..
    next
      case False
      have "?some (xs @ [x])"
      proof (intro exI[of _ i] conjI allI impI)
        show "i < length (xs @ [x])" using i by simp
        show "fold ?step (xs @ [x]) (None, s0) = (Some ((xs @ [x]) ! i), f ((xs @ [x]) ! i))"
          using res False i by (auto simp: nth_append)
        show "P ((xs @ [x]) ! i)" using Pi i by (simp add: nth_append)
      next
        fix j assume "j < length (xs @ [x])" "P ((xs @ [x]) ! j)"
        then show "f ((xs @ [x]) ! j) \<le> f ((xs @ [x]) ! i)"
          using mx False i by (cases "j < length xs") (auto simp: nth_append less_Suc_eq not_less)
      next
        fix j assume "j < i" "P ((xs @ [x]) ! j)"
        then show "f ((xs @ [x]) ! j) < f ((xs @ [x]) ! i)"
          using fst i by (auto simp: nth_append)
      qed
      then show ?thesis ..
    qed
  qed
qed



lemma findContentBySelectorsFrom_Cons:
  "findContentBySelectorsFrom (s # rest) d =
     (if isValidContent (querySelector s d) then querySelector s d
      else findContentBySelectorsFrom rest d)"
  by (cases "querySelector s d") (simp_all add: Let_def)

lemma findContentBySelectorsFrom_first:
  assumes "k < length sels"
    and "isValidContent (querySelector (sels ! k) d)"
    and "\<forall>j<k. \<not> isValidContent (querySelector (sels ! j) d)"
  shows "findContentBySelectorsFrom sels d = querySelector (sels ! k) d"
  using assms
proof (induction sels arbitrary: k)
  case Nil
  then show ?case by simp
next
  case (Cons s sels)
  show ?case
  proof (cases k)
    case 0
    with Cons.prems show ?thesis by (simp add: findContentBySelectorsFrom_Cons del: findContentBySelectorsFrom.simps(2))
  next
    case (Suc k')
    with Cons.prems have first: "\<not> isValidContent (querySelector s d)" by auto
    from Suc Cons.prems have "findContentBySelectorsFrom sels d = querySelector (sels ! k') d"
      by (intro Cons.IH) auto
    with first Suc show ?thesis by (simp add: findContentBySelectorsFrom_Cons del: findContentBySelectorsFrom.simps(2))
  qed
qed


lemma densityStep_shape:
  "densityStep = (\<lambda>x acc. if snd acc < calculateTextDensity x
                              \<and> textDensityThreshold < calculateTextDensity x
                            then (Some x, calculateTextDensity x) else acc)"
  by (intro ext) (simp add: densityStep_def Let_def)

lemma largestStep_shape:
  "largestStep = (\<lambda>x acc. if snd acc < length (trim (textContent x)) \<and> isValidContent (Some x)
                            then (Some x, length (trim (textContent x))) else acc)"
  by (intro ext) (simp add: largestStep_def Let_def)

lemma isValidContent_length: "isValidContent (Some e) \<Longrightarrow> 100 \<le> length (trim (textContent e))"
  by (simp add: Let_def split: if_splits)


lemma calculateTextDensity_unfold:
  "calculateTextDensity e =
     (if descendants e = [] then 0
      else (of_int (int (length (trim (textContent e))) - int (linkTextLength e)))
           / of_nat (length (descendants e)))"
  by (simp add: calculateTextDensity_def Let_def querySelectorAll_Universal)

lemma exLinky_lengths:
  "length (trim (textContent exLinky)) = 500 \<and> linkTextLength exLinky = 260"
proof -
  have "trim (textContent exLinky) = textContent exLinky"
    by (rule trim_unchanged) (simp_all add: exLinky_def isWhiteSpace_def)
  then have "length (trim (textContent exLinky)) = 500" by (simp add: exLinky_def)
  moreover have "linkTextLength exLinky = 260"
    by (simp add: exLinky_def linkTextLength_def querySelectorAll_def descendants_def)
  ultimately show ?thesis ..
qed

lemma exDense_lengths:
  "length (trim (textContent exDense)) = 1000 \<and> linkTextLength exDense = 200
   \<and> length (descendants exDense) = 40"
proof -
  have tc: "textContent exDense = replicate 200 CHR ''x'' @ replicate 800 CHR ''y''"
    by (simp add: exDense_def comp_def)
  have "trim (textContent exDense) = textContent exDense"
    by (rule trim_unchanged) (simp_all add: tc isWhiteSpace_def)
  then have "length (trim (textContent exDense)) = 1000" by (simp add: tc)
  moreover have "linkTextLength exDense = 200" by code_simp
  moreover have "length (descendants exDense) = 40" by code_simp
  ultimately show ?thesis by blast
qed

lemma densityCandidates_tags:
  "(c \<in> set (querySelectorAll densityCandidates document))
     = (c \<in> set (descendants document)
        \<and> (tagOf c = ''div'' \<or> tagOf c = ''section'' \<or> tagOf c = ''main''))"
proof (cases "c \<in> set (descendants document)")
  case True
  then have "isElement c" by (rule descendants_elements)
  then have "matches densityCandidates c
             = (tagOf c = ''div'' \<or> tagOf c = ''section'' \<or> tagOf c = ''main'')"
    by (cases c) (simp_all add: densityCandidates_def)
  with True show ?thesis by (simp add: querySelectorAll_def)
next
  case False
  then show ?thesis by (simp add: querySelectorAll_def)
qed

lemma stage2_scan:
  assumes "findContentBySelectors document = None"
  shows "((\<forall>c\<in>set (querySelectorAll densityCandidates document).
              \<not> textDensityThreshold < calculateTextDensity c)
          \<and> extractMainContentRun document
              = ([BySelectors, ByTextDensity, LargestTextBlock], findLargestTextBlock document))
         \<or> (\<exists>i<length (querySelectorAll densityCandidates document).
               extractMainContentRun document
                 = ([BySelectors, ByTextDensity], Some (querySelectorAll densityCandidates document ! i))
               \<and> textDensityThreshold < calculateTextDensity (querySelectorAll densityCandidates document ! i)
               \<and> (\<forall>j<length (querySelectorAll densityCandidates document).
                      calculateTextDensity (querySelectorAll densityCandidates document ! j)
                        \<le> calculateTextDensity (querySelectorAll densityCandidates document ! i))
               \<and> (\<forall>j<i. calculateTextDensity (querySelectorAll densityCandidates document ! j)
                          < calculateTextDensity (querySelectorAll densityCandidates document ! i)))"
proof -
  let ?cs = "querySelectorAll densityCandidates document"
  let ?f = calculateTextDensity
  let ?P = "\<lambda>x. textDensityThreshold < ?f x"
  have pos: "\<forall>x. ?P x \<longrightarrow> (0::rat) < ?f x" by (simp add: textDensityThreshold_def)
  have stage2: "findContentByTextDensity document = fst (fold densityStep ?cs (None, 0))"
    by (simp add: findContentByTextDensity_def)
  from scan_first_maximum[where P = ?P and f = ?f and xs = ?cs and ?s0.0 = 0, OF pos]
  show ?thesis
  proof
    assume none: "fold (\<lambda>x acc. if snd acc < ?f x \<and> ?P x then (Some x, ?f x) else acc) ?cs (None, 0)
                    = (None, 0) \<and> (\<forall>x\<in>set ?cs. \<not> ?P x)"
    then have "findContentByTextDensity document = None"
      by (simp add: stage2 densityStep_shape)
    with assms none show ?thesis by (simp add: extractMainContentRun_def)
  next
    assume "\<exists>i<length ?cs.
              fold (\<lambda>x acc. if snd acc < ?f x \<and> ?P x then (Some x, ?f x) else acc) ?cs (None, 0)
                = (Some (?cs ! i), ?f (?cs ! i))
              \<and> ?P (?cs ! i)
              \<and> (\<forall>j<length ?cs. ?P (?cs ! j) \<longrightarrow> ?f (?cs ! j) \<le> ?f (?cs ! i))
              \<and> (\<forall>j<i. ?P (?cs ! j) \<longrightarrow> ?f (?cs ! j) < ?f (?cs ! i))"
    then obtain i where i: "i < length ?cs"
      and res: "fold (\<lambda>x acc. if snd acc < ?f x \<and> ?P x then (Some x, ?f x) else acc) ?cs (None, 0)
                = (Some (?cs ! i), ?f (?cs ! i))"
      and Pi: "?P (?cs ! i)"
      and mx: "\<forall>j<length ?cs. ?P (?cs ! j) \<longrightarrow> ?f (?cs ! j) \<le> ?f (?cs ! i)"
      and fs: "\<forall>j<i. ?P (?cs ! j) \<longrightarrow> ?f (?cs ! j) < ?f (?cs ! i)"
      by blast
    from res have "findContentByTextDensity document = Some (?cs ! i)"
      by (simp add: stage2 densityStep_shape)
    with assms have run: "extractMainContentRun document = ([BySelectors, ByTextDensity], Some (?cs ! i))"
      by (simp add: extractMainContentRun_def)
    have mx': "\<forall>j<length ?cs. ?f (?cs ! j) \<le> ?f (?cs ! i)"
    proof (intro allI impI)
      fix j assume j: "j < length ?cs"
      show "?f (?cs ! j) \<le> ?f (?cs ! i)"
      proof (cases "?P (?cs ! j)")
        case True with mx j show ?thesis by blast
      next
        case False with Pi show ?thesis by simp
      qed
    qed
    have fs': "\<forall>j<i. ?f (?cs ! j) < ?f (?cs ! i)"
    proof (intro allI impI)
      fix j assume j: "j < i"
      show "?f (?cs ! j) < ?f (?cs ! i)"
      proof (cases "?P (?cs ! j)")
        case True with fs j show ?thesis by blast
      next
        case False with Pi show ?thesis by simp
      qed
    qed
    from i run Pi mx' fs' show ?thesis by blast
  qed
qed


section \<open>The locator: claims\<close>

text \<open>
  Claim C2, as amended. Stage 1 asks \<open>document.querySelector\<close> for each selector, so
  for each selector it is given only the first element in tree order that matches it.
  For every tree in which, for some stage-1 selector, that first match passes the
  validity filter, the locator returns the first match of the earliest such selector in
  priority order, and runs neither stage 2 nor stage 3.
\<close>

theorem stage1_first_valid_selector:
  assumes "\<exists>s\<in>set contentSelectors. isValidContent (querySelector s document)"
  shows "\<exists>k e. k < length contentSelectors
           \<and> querySelector (contentSelectors ! k) document = Some e
           \<and> matches (contentSelectors ! k) e
           \<and> isValidContent (Some e)
           \<and> (\<forall>j<k. \<not> isValidContent (querySelector (contentSelectors ! j) document))
           \<and> extractMainContentRun document = ([BySelectors], Some e)"
proof -
  let ?ok = "\<lambda>k. k < length contentSelectors
                 \<and> isValidContent (querySelector (contentSelectors ! k) document)"
  from assms have "\<exists>k. ?ok k" by (auto simp: in_set_conv_nth)
  then obtain k where k: "?ok k" and least: "\<forall>j<k. \<not> ?ok j"
    using exists_least_iff[of ?ok] by blast
  from k obtain e where e: "querySelector (contentSelectors ! k) document = Some e"
    by (cases "querySelector (contentSelectors ! k) document") auto
  from k least have before: "\<forall>j<k. \<not> isValidContent (querySelector (contentSelectors ! j) document)"
    by auto
  from k before have "findContentBySelectors document = Some e"
    unfolding findContentBySelectors_def
    using findContentBySelectorsFrom_first[where k = k and sels = contentSelectors and d = document] e by simp
  then have run: "extractMainContentRun document = ([BySelectors], Some e)"
    by (simp add: extractMainContentRun_def)
  from e have "matches (contentSelectors ! k) e" using querySelector_Some by blast
  with k e before run show ?thesis by auto
qed


theorem stage1_first_valid_selector_witness:
  "(\<exists>s\<in>set contentSelectors. isValidContent (querySelector s exContentClass))
   \<and> (\<exists>k e. k < length contentSelectors
           \<and> querySelector (contentSelectors ! k) exContentClass = Some e
           \<and> matches (contentSelectors ! k) e
           \<and> isValidContent (Some e)
           \<and> (\<forall>j<k. \<not> isValidContent (querySelector (contentSelectors ! j) exContentClass))
           \<and> extractMainContentRun exContentClass = ([BySelectors], Some e))"
proof -
  have valid: "isValidContent (querySelector (ClassSel ''content'') exContentClass)"
    by code_simp
  have "ClassSel ''content'' \<in> set contentSelectors"
    by (simp add: contentSelectors_def)
  with valid have h: "\<exists>s\<in>set contentSelectors. isValidContent (querySelector s exContentClass)"
    by blast
  from h stage1_first_valid_selector[OF h] show ?thesis by blast
qed

text \<open>
  Claim C2 as stated fails: in \<open>exTwoArticles\<close> the second \<open>article\<close> matches a
  stage-1 selector and passes the validity filter, but the first \<open>article\<close> is too
  short, so stage 1 finds nothing, all three stages run, and the locator returns the
  \<open>html\<close> element, which matches no stage-1 selector.
\<close>

theorem stage1_second_match_counterexample:
  "Element 4 ''article'' [] [Text 5 (replicate 120 CHR ''x'')] \<in> set (descendants exTwoArticles)
   \<and> matches (TagSel ''article'') (Element 4 ''article'' [] [Text 5 (replicate 120 CHR ''x'')])
   \<and> TagSel ''article'' \<in> set contentSelectors
   \<and> isValidContent (Some (Element 4 ''article'' [] [Text 5 (replicate 120 CHR ''x'')]))
   \<and> extractMainContentRun exTwoArticles
       = ([BySelectors, ByTextDensity, LargestTextBlock],
          Some (Element 1 ''html'' []
                  [Element 2 ''article'' [] [Text 3 ''short''],
                   Element 4 ''article'' [] [Text 5 (replicate 120 CHR ''x'')]]))
   \<and> list_ex (\<lambda>s. matches s (Element 1 ''html'' []
                  [Element 2 ''article'' [] [Text 3 ''short''],
                   Element 4 ''article'' [] [Text 5 (replicate 120 CHR ''x'')]]))
        contentSelectors = False"
  by code_simp

text \<open>
  Claim C4. The candidates of stage 2 are the \<open>div\<close>, \<open>section\<close> and
  \<open>main\<close> elements of the document, in tree order. When stage 1 returns nothing:
  either no candidate has a density above the threshold 25, and the locator goes on to
  stage 3; or the locator returns, without running stage 3, a candidate whose density is
  above 25, is at least the density of every candidate, and is strictly above the density
  of every candidate before it in tree order.
\<close>

theorem stage2_first_maximum_density:
  assumes "findContentBySelectors document = None"
  shows "(\<forall>c. (c \<in> set (querySelectorAll densityCandidates document))
               = (c \<in> set (descendants document)
                  \<and> (tagOf c = ''div'' \<or> tagOf c = ''section'' \<or> tagOf c = ''main'')))
         \<and> (((\<forall>c\<in>set (querySelectorAll densityCandidates document).
              \<not> textDensityThreshold < calculateTextDensity c)
          \<and> extractMainContentRun document
              = ([BySelectors, ByTextDensity, LargestTextBlock], findLargestTextBlock document))
         \<or> (\<exists>i<length (querySelectorAll densityCandidates document).
               extractMainContentRun document
                 = ([BySelectors, ByTextDensity], Some (querySelectorAll densityCandidates document ! i))
               \<and> textDensityThreshold < calculateTextDensity (querySelectorAll densityCandidates document ! i)
               \<and> (\<forall>j<length (querySelectorAll densityCandidates document).
                      calculateTextDensity (querySelectorAll densityCandidates document ! j)
                        \<le> calculateTextDensity (querySelectorAll densityCandidates document ! i))
               \<and> (\<forall>j<i. calculateTextDensity (querySelectorAll densityCandidates document ! j)
                          < calculateTextDensity (querySelectorAll densityCandidates document ! i))))"
  using densityCandidates_tags stage2_scan[OF assms] by blast

theorem stage2_first_maximum_density_witness:
  "findContentBySelectors exTie = None
   \<and> (((\<forall>c\<in>set (querySelectorAll densityCandidates exTie).
              \<not> textDensityThreshold < calculateTextDensity c)
          \<and> extractMainContentRun exTie
              = ([BySelectors, ByTextDensity, LargestTextBlock], findLargestTextBlock exTie))
         \<or> (\<exists>i<length (querySelectorAll densityCandidates exTie).
               extractMainContentRun exTie
                 = ([BySelectors, ByTextDensity], Some (querySelectorAll densityCandidates exTie ! i))
               \<and> textDensityThreshold < calculateTextDensity (querySelectorAll densityCandidates exTie ! i)
               \<and> (\<forall>j<length (querySelectorAll densityCandidates exTie).
                      calculateTextDensity (querySelectorAll densityCandidates exTie ! j)
                        \<le> calculateTextDensity (querySelectorAll densityCandidates exTie ! i))
               \<and> (\<forall>j<i. calculateTextDensity (querySelectorAll densityCandidates exTie ! j)
                          < calculateTextDensity (querySelectorAll densityCandidates exTie ! i))))
   \<and> extractMainContentRun exTie
       = ([BySelectors, ByTextDensity],
          Some (Element 3 ''div'' [] [Element 4 ''p'' [] [Text 5 (replicate 30 CHR ''x'')]]))"
proof -
  have h: "findContentBySelectors exTie = None" by code_simp
  have r: "extractMainContentRun exTie
       = ([BySelectors, ByTextDensity],
          Some (Element 3 ''div'' [] [Element 4 ''p'' [] [Text 5 (replicate 30 CHR ''x'')]]))"
    by code_simp
  from h r stage2_first_maximum_density[OF h] show ?thesis by blast
qed

text \<open>
  Claim C6. When stages 1 and 2 return nothing, the locator returns what stage 3 returns.
  Stage 3 goes through every element of the tree in tree order: if none passes the
  validity filter it returns nothing; otherwise it returns an element that passes the
  filter, whose trimmed text is at least as long as that of every element that passes,
  and strictly longer than that of every element before it that passes.
\<close>

theorem stage3_largest_valid_block:
  assumes "findContentBySelectors document = None"
    and "findContentByTextDensity document = None"
  shows "extractMainContentRun document
           = ([BySelectors, ByTextDensity, LargestTextBlock], findLargestTextBlock document)
         \<and> (((\<forall>e\<in>set (descendants document). \<not> isValidContent (Some e))
              \<and> findLargestTextBlock document = None)
            \<or> (\<exists>i<length (descendants document).
                  findLargestTextBlock document = Some (descendants document ! i)
                  \<and> isValidContent (Some (descendants document ! i))
                  \<and> (\<forall>j<length (descendants document).
                         isValidContent (Some (descendants document ! j)) \<longrightarrow>
                         length (trim (textContent (descendants document ! j)))
                           \<le> length (trim (textContent (descendants document ! i))))
                  \<and> (\<forall>j<i. isValidContent (Some (descendants document ! j)) \<longrightarrow>
                         length (trim (textContent (descendants document ! j)))
                           < length (trim (textContent (descendants document ! i))))))"
proof
  from assms show "extractMainContentRun document
           = ([BySelectors, ByTextDensity, LargestTextBlock], findLargestTextBlock document)"
    by (simp add: extractMainContentRun_def)
next
  let ?es = "descendants document"
  let ?f = "\<lambda>x. length (trim (textContent x))"
  let ?P = "\<lambda>x. isValidContent (Some x)"
  have stage3: "findLargestTextBlock document = fst (fold largestStep ?es (None, 0))"
    by (simp add: findLargestTextBlock_def querySelectorAll_Universal)
  have pos: "\<forall>x. ?P x \<longrightarrow> 0 < ?f x"
  proof (intro allI impI)
    fix x assume "?P x"
    then have "100 \<le> ?f x" by (rule isValidContent_length)
    then show "0 < ?f x" by linarith
  qed
  from scan_first_maximum[where P = ?P and f = ?f and xs = ?es and ?s0.0 = 0, OF pos]
  show "((\<forall>e\<in>set ?es. \<not> ?P e) \<and> findLargestTextBlock document = None)
        \<or> (\<exists>i<length ?es. findLargestTextBlock document = Some (?es ! i) \<and> ?P (?es ! i)
              \<and> (\<forall>j<length ?es. ?P (?es ! j) \<longrightarrow> ?f (?es ! j) \<le> ?f (?es ! i))
              \<and> (\<forall>j<i. ?P (?es ! j) \<longrightarrow> ?f (?es ! j) < ?f (?es ! i)))"
  proof
    assume "fold (\<lambda>x acc. if snd acc < ?f x \<and> ?P x then (Some x, ?f x) else acc) ?es (None, 0)
              = (None, 0) \<and> (\<forall>x\<in>set ?es. \<not> ?P x)"
    then have "(\<forall>e\<in>set ?es. \<not> ?P e) \<and> findLargestTextBlock document = None"
      by (simp add: stage3 largestStep_shape)
    then show ?thesis ..
  next
    assume "\<exists>i<length ?es.
              fold (\<lambda>x acc. if snd acc < ?f x \<and> ?P x then (Some x, ?f x) else acc) ?es (None, 0)
                = (Some (?es ! i), ?f (?es ! i))
              \<and> ?P (?es ! i)
              \<and> (\<forall>j<length ?es. ?P (?es ! j) \<longrightarrow> ?f (?es ! j) \<le> ?f (?es ! i))
              \<and> (\<forall>j<i. ?P (?es ! j) \<longrightarrow> ?f (?es ! j) < ?f (?es ! i))"
    then obtain i where i: "i < length ?es"
      and res: "fold (\<lambda>x acc. if snd acc < ?f x \<and> ?P x then (Some x, ?f x) else acc) ?es (None, 0)
                = (Some (?es ! i), ?f (?es ! i))"
      and rest: "?P (?es ! i)"
        "\<forall>j<length ?es. ?P (?es ! j) \<longrightarrow> ?f (?es ! j) \<le> ?f (?es ! i)"
        "\<forall>j<i. ?P (?es ! j) \<longrightarrow> ?f (?es ! j) < ?f (?es ! i)"
      by blast
    from res have "findLargestTextBlock document = Some (?es ! i)"
      by (simp add: stage3 largestStep_shape)
    with i rest have "\<exists>i<length ?es. findLargestTextBlock document = Some (?es ! i) \<and> ?P (?es ! i)
              \<and> (\<forall>j<length ?es. ?P (?es ! j) \<longrightarrow> ?f (?es ! j) \<le> ?f (?es ! i))
              \<and> (\<forall>j<i. ?P (?es ! j) \<longrightarrow> ?f (?es ! j) < ?f (?es ! i))"
      by blast
    then show ?thesis ..
  qed
qed


theorem stage3_largest_valid_block_witness:
  "findContentBySelectors exParagraph = None
   \<and> findContentByTextDensity exParagraph = None
   \<and> extractMainContentRun exParagraph
           = ([BySelectors, ByTextDensity, LargestTextBlock], findLargestTextBlock exParagraph)
   \<and> findLargestTextBlock exParagraph
       = Some (Element 1 ''html'' []
                 [Element 2 ''body'' [] [Element 3 ''p'' [] [Text 4 (replicate 120 CHR ''x'')]]])"
proof -
  have h1: "findContentBySelectors exParagraph = None" by code_simp
  have h2: "findContentByTextDensity exParagraph = None" by code_simp
  have r: "findLargestTextBlock exParagraph
       = Some (Element 1 ''html'' []
                 [Element 2 ''body'' [] [Element 3 ''p'' [] [Text 4 (replicate 120 CHR ''x'')]]])"
    by code_simp
  from h1 h2 r stage3_largest_valid_block[OF h1 h2] show ?thesis by blast
qed

text \<open>
  Claim C5, as amended. The validity filter fails for an absent element; fails whenever
  the trimmed text is shorter than 100, whatever the links; and for a trimmed text of at
  least 100 it passes exactly when the link text length over the trimmed text length is
  not above one half. So text length 500 with link text length 260 fails, and a ratio of
  exactly one half passes. The link text length is the summed length of the text of the
  \<open>a\<close> descendants as it is, not trimmed.
\<close>

theorem isValidContent_filter:
  "isValidContent None = False
   \<and> (\<forall>e. length (trim (textContent e)) < 100 \<longrightarrow> isValidContent (Some e) = False)
   \<and> (\<forall>e. 100 \<le> length (trim (textContent e)) \<longrightarrow>
          isValidContent (Some e)
            = (\<not> (of_nat (linkTextLength e) :: rat) / of_nat (length (trim (textContent e))) > 1 / 2))
   \<and> (\<forall>e. length (trim (textContent e)) = 500 \<and> linkTextLength e = 260 \<longrightarrow>
          isValidContent (Some e) = False)
   \<and> (\<forall>e. 100 \<le> length (trim (textContent e))
           \<and> 2 * linkTextLength e = length (trim (textContent e)) \<longrightarrow>
          isValidContent (Some e) = True)
   \<and> (\<forall>e. linkTextLength e
            = sum_list (map (\<lambda>link. length (textContent link))
                          (filter (matches (TagSel ''a'')) (descendants e))))"
proof (intro conjI allI impI)
  show "isValidContent None = False" by simp
next
  fix e show "linkTextLength e
            = sum_list (map (\<lambda>link. length (textContent link))
                          (filter (matches (TagSel ''a'')) (descendants e)))"
    by (simp add: linkTextLength_sum querySelectorAll_def)
next
  fix e assume "length (trim (textContent e)) < 100"
  then show "isValidContent (Some e) = False" by (simp add: Let_def)
next
  fix e assume "100 \<le> length (trim (textContent e))"
  then show "isValidContent (Some e)
            = (\<not> (of_nat (linkTextLength e) :: rat) / of_nat (length (trim (textContent e))) > 1 / 2)"
    by (simp add: Let_def)
next
  fix e assume "length (trim (textContent e)) = 500 \<and> linkTextLength e = 260"
  then show "isValidContent (Some e) = False" by (simp add: Let_def)
next
  fix e assume h: "100 \<le> length (trim (textContent e))
           \<and> 2 * linkTextLength e = length (trim (textContent e))"
  have "(of_nat (linkTextLength e) :: rat) / of_nat (length (trim (textContent e))) = 1 / 2"
  proof -
    from h have "0 < length (trim (textContent e))" by linarith
    then have pos: "(of_nat (length (trim (textContent e))) :: rat) > 0"
      by (simp only: of_nat_0_less_iff)
    from h have "(of_nat (length (trim (textContent e))) :: rat) = 2 * of_nat (linkTextLength e)"
      by (metis of_nat_mult of_nat_numeral)
    with pos show ?thesis by simp
  qed
  with h show "isValidContent (Some e) = True" by (simp add: Let_def)
qed

theorem isValidContent_filter_witness:
  "length (trim (textContent exShort)) < 100 \<and> isValidContent (Some exShort) = False
   \<and> length (trim (textContent exLinky)) = 500 \<and> linkTextLength exLinky = 260
   \<and> isValidContent (Some exLinky) = False
   \<and> 100 \<le> length (trim (textContent exHalf))
   \<and> 2 * linkTextLength exHalf = length (trim (textContent exHalf))
   \<and> isValidContent (Some exHalf) = True"
proof -
  have short: "length (trim (textContent exShort)) < 100" by code_simp
  have half: "100 \<le> length (trim (textContent exHalf))
              \<and> 2 * linkTextLength exHalf = length (trim (textContent exHalf))"
    by code_simp
  from isValidContent_filter short exLinky_lengths half show ?thesis by blast
qed

text \<open>
  Claim C5 as stated fails, with the link text length trimmed as the specification has
  it: in \<open>exPaddedLink\<close> the trimmed text is 110 long and the trimmed link text 40, a
  ratio below one half, so the filter as specified passes; the code adds the 60 leading
  spaces of the link, finds 100 over 110, and fails.
\<close>

theorem isValidContent_untrimmed_links_counterexample:
  "length (trim (textContent exPaddedLink)) = 110
   \<and> sum_list (map (\<lambda>link. length (trim (textContent link)))
                (querySelectorAll (TagSel ''a'') exPaddedLink)) = 40
   \<and> linkTextLength exPaddedLink = 100
   \<and> validAsSpecified (Some exPaddedLink) = True
   \<and> isValidContent (Some exPaddedLink) = False"
  by code_simp

text \<open>
  Claim C3, as amended. The density is the trimmed text length minus the summed length
  of the (untrimmed) text of the \<open>a\<close> descendants, divided by the number of
  descendant elements when there is at least one, and 0 when there is none. Text length
  1000, link text length 200 and 40 descendant elements give 20, and such an element
  never becomes the best candidate of stage 2.
\<close>

theorem calculateTextDensity_formula:
  "calculateTextDensity e =
     (if descendants e = [] then 0
      else (of_int (int (length (trim (textContent e)))
                    - int (sum_list (map (\<lambda>link. length (textContent link))
                                       (filter (matches (TagSel ''a'')) (descendants e)))))
            / of_nat (length (descendants e))))
   \<and> (length (trim (textContent e)) = 1000 \<and> linkTextLength e = 200 \<and> length (descendants e) = 40
        \<longrightarrow> calculateTextDensity e = 20 \<and> (\<forall>best. densityStep e best = best))"
proof
  show "calculateTextDensity e =
     (if descendants e = [] then 0
      else (of_int (int (length (trim (textContent e)))
                    - int (sum_list (map (\<lambda>link. length (textContent link))
                                       (filter (matches (TagSel ''a'')) (descendants e)))))
            / of_nat (length (descendants e))))"
    by (simp add: calculateTextDensity_unfold linkTextLength_sum querySelectorAll_def)
next
  show "length (trim (textContent e)) = 1000 \<and> linkTextLength e = 200 \<and> length (descendants e) = 40
        \<longrightarrow> calculateTextDensity e = 20 \<and> (\<forall>best. densityStep e best = best)"
  proof
    assume h: "length (trim (textContent e)) = 1000 \<and> linkTextLength e = 200
               \<and> length (descendants e) = 40"
    then have "descendants e \<noteq> []" by auto
    with h have d: "calculateTextDensity e = 20" by (simp add: calculateTextDensity_unfold)
    then have "\<forall>best. densityStep e best = best"
      by (simp add: densityStep_def textDensityThreshold_def)
    with d show "calculateTextDensity e = 20 \<and> (\<forall>best. densityStep e best = best)" ..
  qed
qed

theorem calculateTextDensity_formula_witness:
  "length (trim (textContent exDense)) = 1000 \<and> linkTextLength exDense = 200
   \<and> length (descendants exDense) = 40
   \<and> calculateTextDensity exDense = 20
   \<and> densityStep exDense (None, 0) = (None, 0)
   \<and> calculateTextDensity exNoTags = 0"
proof -
  have "descendants exNoTags = []" by code_simp
  with calculateTextDensity_formula[of exNoTags] have "calculateTextDensity exNoTags = 0" by simp
  with calculateTextDensity_formula[of exDense] exDense_lengths show ?thesis by simp
qed

text \<open>
  Claim C3 as stated fails: with no descendant element the code gives 0 where the stated
  quotient over \<open>max(1, count)\<close> gives the text length (5 for \<open>exNoTags\<close>), and
  the code subtracts the untrimmed link text (\<open>exBlankLink\<close>: \<open>-3\<close> against 0).
\<close>

theorem calculateTextDensity_formula_counterexample:
  "calculateTextDensity exNoTags = 0 \<and> densityAsSpecified exNoTags = 5
   \<and> calculateTextDensity exBlankLink = - 3 \<and> densityAsSpecified exBlankLink = 0"
  by code_simp

text \<open>
  Claim C9, as amended. The density is non-negative exactly when the summed text length
  of the \<open>a\<close> descendants is at most the trimmed text length of the element.
\<close>

theorem calculateTextDensity_sign:
  "(0 \<le> calculateTextDensity e) = (linkTextLength e \<le> length (trim (textContent e)))"
proof (cases "descendants e = []")
  case True
  then have "linkTextLength e = 0" by (simp add: linkTextLength_sum querySelectorAll_def)
  with True show ?thesis by (simp add: calculateTextDensity_unfold)
next
  case False
  then have "0 < length (descendants e)" by simp
  then have "(0::rat) < of_nat (length (descendants e))" by (simp only: of_nat_0_less_iff)
  then have "(0 \<le> calculateTextDensity e)
             = ((0::rat) \<le> of_int (int (length (trim (textContent e))) - int (linkTextLength e)))"
    using False by (simp add: calculateTextDensity_unfold zero_le_divide_iff)
  then show ?thesis by simp
qed

theorem calculateTextDensity_sign_witness:
  "linkTextLength exHalf \<le> length (trim (textContent exHalf)) \<and> 0 \<le> calculateTextDensity exHalf
   \<and> \<not> linkTextLength exBlankLink \<le> length (trim (textContent exBlankLink))
   \<and> \<not> 0 \<le> calculateTextDensity exBlankLink"
proof -
  have "linkTextLength exHalf \<le> length (trim (textContent exHalf))" by code_simp
  moreover have "\<not> linkTextLength exBlankLink \<le> length (trim (textContent exBlankLink))"
    by code_simp
  ultimately show ?thesis using calculateTextDensity_sign by blast
qed

text \<open>
  Claim C9 as stated fails: a \<open>div\<close> holding one link of three blanks has trimmed
  text length 0, link text length 3 and one descendant, hence density \<open>-3\<close>.
\<close>

theorem calculateTextDensity_negative_counterexample:
  "calculateTextDensity exBlankLink = - 3 \<and> calculateTextDensity exBlankLink < 0"
  by code_simp

section \<open>The sanitizer: lemmas\<close>

declare collectElements.simps [simp del]

lemma nid_in_idsOf: "nid t \<in> set (idsOf t)"
  by (cases t) simp_all

lemma removeNode_nid [simp]: "nid (removeNode i t) = nid t"
  by (cases t) simp_all

lemma updateAttributes_nid [simp]: "nid (updateAttributes i f t) = nid t"
  by (cases t) simp_all

lemma removeNode_absent: "i \<notin> set (idsOf t) \<Longrightarrow> removeNode i t = t"
proof (induction i t rule: removeNode.induct)
  case (1 i k cs)
  then have "map (removeNode i) cs = cs" by (auto simp: map_idI)
  moreover from 1 have "\<forall>c\<in>set cs. nid c \<noteq> i"
    using nid_in_idsOf by fastforce
  ultimately show ?case by (simp add: filter_id_conv)
next
  case (2 i k t as cs)
  then have "map (removeNode i) cs = cs" by (auto simp: map_idI)
  moreover from 2 have "\<forall>c\<in>set cs. nid c \<noteq> i"
    using nid_in_idsOf by fastforce
  ultimately show ?case by (simp add: filter_id_conv)
next
  case (3 i k s)
  show ?case by simp
qed

lemma updateAttributes_absent: "i \<notin> set (idsOf t) \<Longrightarrow> updateAttributes i f t = t"
  by (induction i f t rule: updateAttributes.induct) (auto simp: map_idI)

lemma idsOf_removeNode: "set (idsOf (removeNode i t)) \<subseteq> set (idsOf t)"
  by (induction i t rule: removeNode.induct) auto

lemma idsOf_updateAttributes: "idsOf (updateAttributes i f t) = idsOf t"
proof (induction i f t rule: updateAttributes.induct)
  case (1 i f k cs)
  then have "map (idsOf \<circ> updateAttributes i f) cs = map idsOf cs" by simp
  then show ?case by (simp only: updateAttributes.simps idsOf.simps map_map)
next
  case (2 i f k t as cs)
  then have "map (idsOf \<circ> updateAttributes i f) cs = map idsOf cs" by simp
  then show ?case by (simp only: updateAttributes.simps idsOf.simps map_map)
next
  case (3 i f k s)
  show ?case by simp
qed

lemma inclusiveDescendants_ids: "e \<in> set (inclusiveDescendants t) \<Longrightarrow> nid e \<in> set (idsOf t)"
  by (induction t rule: inclusiveDescendants.induct) auto

lemma descendants_ids: "e \<in> set (descendants t) \<Longrightarrow> nid e \<in> set (idsOf t)"
  by (cases t) (auto simp: descendants_def dest: inclusiveDescendants_ids)

lemma querySelectorAll_ids: "e \<in> set (querySelectorAll sel t) \<Longrightarrow> nid e \<in> set (idsOf t)"
  by (simp add: querySelectorAll_def descendants_ids)

lemma cloneTree_fresh:
  "cloneTree deep t n = (c, n') \<Longrightarrow> n \<le> n' \<and> (\<forall>i\<in>set (idsOf c). n \<le> i \<and> i < n')"
  "cloneTrees ts n = (cs, n') \<Longrightarrow> n \<le> n' \<and> (\<forall>c\<in>set cs. \<forall>i\<in>set (idsOf c). n \<le> i \<and> i < n')"
proof (induction deep t n and ts n arbitrary: c n' and cs n' rule: cloneTree_cloneTrees.induct)
  case (1 deep i cs n)
  then show ?case by (fastforce split: if_splits prod.splits)
next
  case (2 deep i t as cs n)
  then show ?case by (fastforce split: if_splits prod.splits)
next
  case (3 deep i s n)
  then show ?case by auto
next
  case (4 n)
  then show ?case by auto
next
  case (5 c cs n)
  then show ?case by (fastforce split: prod.splits)
qed

lemma cloneTree_shape:
  "eraseIds (fst (cloneTree True t n)) = eraseIds t"
  "map eraseIds (fst (cloneTrees ts n)) = map eraseIds ts"
  by (induction True t n and ts n rule: cloneTree_cloneTrees.induct)
     (auto split: prod.splits)

text \<open>The walk of \<open>cleanAttributes\<close> collects the elements below the root.\<close>

lemma collectElements_drop:
  "collectElements w els = els @ drop (Suc (currentIndex w)) (walk w)"
proof (induction w els rule: collectElements.induct)
  case (1 walker elements)
  show ?case
  proof (cases "Suc (currentIndex walker) < length (walk walker)")
    case True
    then have step: "nextNode walker
        = (Some (walk walker ! Suc (currentIndex walker)),
           walker\<lparr>currentIndex := Suc (currentIndex walker)\<rparr>)"
      by (simp add: nextNode_def)
    from 1[OF step[symmetric] refl] step True show ?thesis
      by (subst collectElements.simps) (simp add: Cons_nth_drop_Suc)
  next
    case False
    then have "nextNode walker = (None, walker)" by (simp add: nextNode_def)
    with False show ?thesis by (subst collectElements.simps) simp
  qed
qed

lemma collectElements_descendants:
  "collectElements (createTreeWalker r) [] = descendants r"
  by (simp add: collectElements_drop createTreeWalker_def)

text \<open>A loop keeps what each of its turns keeps.\<close>

lemma fold_invariant:
  assumes "I st" and "\<And>x st. x \<in> set xs \<Longrightarrow> I st \<Longrightarrow> I (F x st)"
  shows "I (fold F xs st)"
  using assms by (induction xs arbitrary: st) simp_all

text \<open>
  A write addressed to an identity that no tree existing before \<open>cleanContent\<close> holds
  leaves those trees as they are, and adds no identity to the copy.
\<close>

lemma onAllTrees_frame:
  assumes old: "\<forall>t\<in>set T. \<forall>j\<in>set (idsOf t). j < N"
    and absent: "\<And>t. i \<notin> set (idsOf t) \<Longrightarrow> f t = t"
    and ids: "\<And>t. set (idsOf (f t)) \<subseteq> set (idsOf t)"
    and fresh: "N \<le> i"
    and inv: "(\<forall>j\<in>set (idsOf (fst st)). N \<le> j) \<and> trees (snd st) = T"
  shows "(\<forall>j\<in>set (idsOf (fst (onAllTrees f st))). N \<le> j) \<and> trees (snd (onAllTrees f st)) = T"
proof
  from inv ids show "\<forall>j\<in>set (idsOf (fst (onAllTrees f st))). N \<le> j"
    by (auto simp: onAllTrees_def)
next
  have "map f T = T"
  proof (rule map_idI)
    fix t assume "t \<in> set T"
    with old fresh have "i \<notin> set (idsOf t)" by fastforce
    then show "f t = t" by (rule absent)
  qed
  with inv show "trees (snd (onAllTrees f st)) = T" by (simp add: onAllTrees_def)
qed

lemma removeElement_frame:
  assumes "\<forall>t\<in>set T. \<forall>j\<in>set (idsOf t). j < N" and "N \<le> i"
    and "(\<forall>j\<in>set (idsOf (fst st)). N \<le> j) \<and> trees (snd st) = T"
  shows "(\<forall>j\<in>set (idsOf (fst (removeElement i st))). N \<le> j) \<and> trees (snd (removeElement i st)) = T"
  unfolding removeElement_def
proof (rule onAllTrees_frame[where i = i, OF assms(1) _ _ assms(2,3)])
  fix t assume "i \<notin> set (idsOf t)"
  then show "removeNode i t = t" by (rule removeNode_absent)
next
  fix t show "set (idsOf (removeNode i t)) \<subseteq> set (idsOf t)" by (rule idsOf_removeNode)
qed

lemma removeAttribute_frame:
  assumes "\<forall>t\<in>set T. \<forall>j\<in>set (idsOf t). j < N" and "N \<le> i"
    and "(\<forall>j\<in>set (idsOf (fst st)). N \<le> j) \<and> trees (snd st) = T"
  shows "(\<forall>j\<in>set (idsOf (fst (removeAttribute i name st))). N \<le> j)
         \<and> trees (snd (removeAttribute i name st)) = T"
  unfolding removeAttribute_def
proof (rule onAllTrees_frame[where i = i, OF assms(1) _ _ assms(2,3)])
  fix t assume "i \<notin> set (idsOf t)"
  then show "updateAttributes i (removeAttributeIn name) t = t" by (rule updateAttributes_absent)
next
  fix t show "set (idsOf (updateAttributes i (removeAttributeIn name) t)) \<subseteq> set (idsOf t)"
    by (simp add: idsOf_updateAttributes)
qed

lemma setAttribute_frame:
  assumes "\<forall>t\<in>set T. \<forall>j\<in>set (idsOf t). j < N" and "N \<le> i"
    and "(\<forall>j\<in>set (idsOf (fst st)). N \<le> j) \<and> trees (snd st) = T"
  shows "(\<forall>j\<in>set (idsOf (fst (setAttribute i name v st))). N \<le> j)
         \<and> trees (snd (setAttribute i name v st)) = T"
  unfolding setAttribute_def
proof (rule onAllTrees_frame[where i = i, OF assms(1) _ _ assms(2,3)])
  fix t assume "i \<notin> set (idsOf t)"
  then show "updateAttributes i (setAttributeIn name v) t = t" by (rule updateAttributes_absent)
next
  fix t show "set (idsOf (updateAttributes i (setAttributeIn name v) t)) \<subseteq> set (idsOf t)"
    by (simp add: idsOf_updateAttributes)
qed

lemma removeNoise_frame:
  assumes old: "\<forall>t\<in>set T. \<forall>j\<in>set (idsOf t). j < N"
    and inv: "(\<forall>j\<in>set (idsOf (fst st)). N \<le> j) \<and> trees (snd st) = T"
  shows "(\<forall>j\<in>set (idsOf (fst (removeNoise st))). N \<le> j) \<and> trees (snd (removeNoise st)) = T"
  unfolding removeNoise_def
proof (rule fold_invariant[where I = "\<lambda>st. (\<forall>j\<in>set (idsOf (fst st)). N \<le> j) \<and> trees (snd st) = T", OF inv])
  fix selector and st' :: sanitizerState
  assume inv': "(\<forall>j\<in>set (idsOf (fst st')). N \<le> j) \<and> trees (snd st') = T"
  show "(\<forall>j\<in>set (idsOf (fst (let elements = querySelectorAll selector (fst st')
                                in fold (\<lambda>el. removeElement (nid el)) elements st'))). N \<le> j)
        \<and> trees (snd (let elements = querySelectorAll selector (fst st')
                       in fold (\<lambda>el. removeElement (nid el)) elements st')) = T"
    unfolding Let_def
  proof (rule fold_invariant[where I = "\<lambda>st. (\<forall>j\<in>set (idsOf (fst st)). N \<le> j) \<and> trees (snd st) = T", OF inv'])
    fix el and st'' :: sanitizerState
    assume el: "el \<in> set (querySelectorAll selector (fst st'))"
      and inv'': "(\<forall>j\<in>set (idsOf (fst st'')). N \<le> j) \<and> trees (snd st'') = T"
    from el inv' have "N \<le> nid el" using querySelectorAll_ids by blast
    then show "(\<forall>j\<in>set (idsOf (fst (removeElement (nid el) st''))). N \<le> j)
                         \<and> trees (snd (removeElement (nid el) st'')) = T"
      using old inv'' by (intro removeElement_frame)
  qed
qed

lemma cleanAttributes_frame:
  assumes old: "\<forall>t\<in>set T. \<forall>j\<in>set (idsOf t). j < N"
    and inv: "(\<forall>j\<in>set (idsOf (fst st)). N \<le> j) \<and> trees (snd st) = T"
  shows "(\<forall>j\<in>set (idsOf (fst (cleanAttributes st))). N \<le> j) \<and> trees (snd (cleanAttributes st)) = T"
  unfolding cleanAttributes_def Let_def collectElements_descendants
proof (rule fold_invariant[where I = "\<lambda>st. (\<forall>j\<in>set (idsOf (fst st)). N \<le> j) \<and> trees (snd st) = T", OF inv])
  fix el and st' :: sanitizerState
  assume el: "el \<in> set (descendants (fst st))"
    and inv': "(\<forall>j\<in>set (idsOf (fst st')). N \<le> j) \<and> trees (snd st') = T"
  from el inv have fresh: "N \<le> nid el" using descendants_ids by blast
  show "(\<forall>j\<in>set (idsOf (fst (fold (\<lambda>attr st'. if fst attr \<notin> set allowedAttributes
                                         then removeAttribute (nid el) (fst attr) st' else st')
                                (attributesOf el) st'))). N \<le> j)
        \<and> trees (snd (fold (\<lambda>attr st'. if fst attr \<notin> set allowedAttributes
                                         then removeAttribute (nid el) (fst attr) st' else st')
                        (attributesOf el) st')) = T"
  proof (rule fold_invariant[where I = "\<lambda>st. (\<forall>j\<in>set (idsOf (fst st)). N \<le> j) \<and> trees (snd st) = T", OF inv'])
    fix attr :: attribute and st'' :: sanitizerState
    assume inv'': "(\<forall>j\<in>set (idsOf (fst st'')). N \<le> j) \<and> trees (snd st'') = T"
    show "(\<forall>j\<in>set (idsOf (fst (if fst attr \<notin> set allowedAttributes
                                  then removeAttribute (nid el) (fst attr) st'' else st''))). N \<le> j)
          \<and> trees (snd (if fst attr \<notin> set allowedAttributes
                         then removeAttribute (nid el) (fst attr) st'' else st'')) = T"
      using removeAttribute_frame[OF old fresh inv''] inv'' by simp
  qed
qed

lemma optimizeImages_frame:
  assumes old: "\<forall>t\<in>set T. \<forall>j\<in>set (idsOf t). j < N"
    and inv: "(\<forall>j\<in>set (idsOf (fst st)). N \<le> j) \<and> trees (snd st) = T"
  shows "(\<forall>j\<in>set (idsOf (fst (optimizeImages st))). N \<le> j) \<and> trees (snd (optimizeImages st)) = T"
  unfolding optimizeImages_def
proof (rule fold_invariant[where I = "\<lambda>st. (\<forall>j\<in>set (idsOf (fst st)). N \<le> j) \<and> trees (snd st) = T", OF inv])
  fix img and st' :: sanitizerState
  assume img: "img \<in> set (querySelectorAll (TagSel ''img'') (fst st))"
    and inv': "(\<forall>j\<in>set (idsOf (fst st')). N \<le> j) \<and> trees (snd st') = T"
  from img inv have fresh: "N \<le> nid img" using querySelectorAll_ids by blast
  let ?I = "\<lambda>st. (\<forall>j\<in>set (idsOf (fst st)). N \<le> j) \<and> trees (snd st) = T"
  let ?st1 = "if imgLoading img = [] then setAttribute (nid img) ''loading'' ''lazy'' st' else st'"
  let ?st2 = "if imgAlt img = [] then setAttribute (nid img) ''alt'' altPlaceholder ?st1 else ?st1"
  have 1: "?I ?st1" using setAttribute_frame[OF old fresh inv'] inv' by simp
  have 2: "?I ?st2" using setAttribute_frame[OF old fresh 1] 1 by simp
  have "?I (removeAttribute (nid img) ''style'' ?st2)" by (rule removeAttribute_frame[OF old fresh 2])
  then show "?I (optimizeImage img st')" by (simp add: optimizeImage_def Let_def)
qed

lemma cloneNode_frame:
  "(\<forall>j\<in>set (idsOf (fst (cloneNode deep c s))). nextId s \<le> j)
   \<and> trees (snd (cloneNode deep c s)) = trees s"
proof -
  obtain copy n where c: "cloneTree deep c (nextId s) = (copy, n)"
    by (cases "cloneTree deep c (nextId s)")
  from cloneTree_fresh(1)[OF c] c show ?thesis by (simp add: cloneNode_def)
qed

lemma matches_shallow:
  "isElement e \<Longrightarrow> matches sel e = matchesElement sel (tagOf e) (attributesOf e)"
  by (cases e) simp_all

lemma matches_isElement: "matches sel e \<Longrightarrow> isElement e"
  by (cases e) simp_all

lemma matchesElement_keeps:
  assumes "readsTagClassIdOnly sel"
    and "getAttribute ''class'' as' = None \<or> getAttribute ''class'' as' = getAttribute ''class'' as"
    and "getAttribute ''id'' as' = None \<or> getAttribute ''id'' as' = getAttribute ''id'' as"
    and "matchesElement sel t as'"
  shows "matchesElement sel t as"
  using assms
  by (induction sel) (auto split: option.splits dest: sym)

lemma matches_keeps:
  assumes "readsTagClassIdOnly sel" "isElement e" "keepsClassAndId e' e" "matches sel e'"
  shows "matches sel e"
proof -
  from assms(4) have e': "isElement e'" by (rule matches_isElement)
  with assms(4) have "matchesElement sel (tagOf e') (attributesOf e')"
    by (simp add: matches_shallow)
  with assms(1,3) have "matchesElement sel (tagOf e) (attributesOf e)"
    unfolding keepsClassAndId_def
    using matchesElement_keeps[of sel "attributesOf e'" "attributesOf e" "tagOf e"] by auto
  with assms(2) show ?thesis by (simp add: matches_shallow)
qed

lemma noiseSelectors_read: "\<forall>sel\<in>set noiseSelectors. readsTagClassIdOnly sel"
  by (simp add: noiseSelectors_def)

text \<open>What stays below a node when one identity is taken out.\<close>

lemma removeNode_tagOf [simp]: "tagOf (removeNode i t) = tagOf t"
  by (cases t) simp_all

lemma removeNode_attributesOf [simp]: "attributesOf (removeNode i t) = attributesOf t"
  by (cases t) simp_all

lemma removeNode_shallow [simp]: "shallow (removeNode i t) = shallow t"
  by (simp add: shallow_def)

lemma isElement_self: "isElement t \<Longrightarrow> t \<in> set (inclusiveDescendants t)"
  by (cases t) simp_all

lemma removeNode_isElement [simp]: "isElement (removeNode i t) = isElement t"
  by (cases t) simp_all

lemma removeNode_children_step:
  assumes IH: "\<And>c e'. c \<in> set cs \<Longrightarrow> e' \<in> set (inclusiveDescendants (removeNode i c)) \<Longrightarrow>
                 (shallow e' = shallow c \<and> isElement c)
                 \<or> (\<exists>e\<in>set (inclusiveDescendants c). shallow e = shallow e' \<and> nid e \<noteq> i)"
    and e': "e' \<in> set (concat (map inclusiveDescendants
                                (filter (\<lambda>c. nid c \<noteq> i) (map (removeNode i) cs))))"
  shows "\<exists>e\<in>set (concat (map inclusiveDescendants cs)). shallow e = shallow e' \<and> nid e \<noteq> i"
proof -
  from e' obtain c where c: "c \<in> set cs" "nid c \<noteq> i"
    and in_c: "e' \<in> set (inclusiveDescendants (removeNode i c))"
    by auto
  from IH[OF c(1) in_c] show ?thesis
  proof
    assume "shallow e' = shallow c \<and> isElement c"
    with c have "c \<in> set (inclusiveDescendants c) \<and> shallow c = shallow e' \<and> nid c \<noteq> i"
      by (simp add: isElement_self)
    with c(1) show ?thesis by auto
  next
    assume "\<exists>e\<in>set (inclusiveDescendants c). shallow e = shallow e' \<and> nid e \<noteq> i"
    with c(1) show ?thesis by auto
  qed
qed

lemma inclusiveDescendants_removeNode:
  "e' \<in> set (inclusiveDescendants (removeNode i t)) \<Longrightarrow>
     (shallow e' = shallow t \<and> isElement t)
     \<or> (\<exists>e\<in>set (inclusiveDescendants t). shallow e = shallow e' \<and> nid e \<noteq> i)"
proof (induction i t arbitrary: e' rule: removeNode.induct)
  case (1 i k cs)
  from 1(2) have "e' \<in> set (concat (map inclusiveDescendants
                                (filter (\<lambda>c. nid c \<noteq> i) (map (removeNode i) cs))))"
    by simp
  with 1(1) have "\<exists>e\<in>set (concat (map inclusiveDescendants cs)). shallow e = shallow e' \<and> nid e \<noteq> i"
    by (intro removeNode_children_step) auto
  then show ?case by simp
next
  case (2 i k t as cs)
  show ?case
  proof (cases "e' = Element k t as (filter (\<lambda>c. nid c \<noteq> i) (map (removeNode i) cs))")
    case True
    then show ?thesis by (simp add: shallow_def)
  next
    case False
    with 2(2) have "e' \<in> set (concat (map inclusiveDescendants
                                (filter (\<lambda>c. nid c \<noteq> i) (map (removeNode i) cs))))"
      by simp
    with 2(1) have "\<exists>e\<in>set (concat (map inclusiveDescendants cs)). shallow e = shallow e' \<and> nid e \<noteq> i"
      by (intro removeNode_children_step) auto
    then show ?thesis by auto
  qed
next
  case (3 i k s)
  then show ?case by simp
qed

lemma descendants_removeNode:
  assumes "e' \<in> set (descendants (removeNode i t))"
  shows "\<exists>e\<in>set (descendants t). shallow e = shallow e' \<and> nid e \<noteq> i"
proof -
  have "children (removeNode i t) = filter (\<lambda>c. nid c \<noteq> i) (map (removeNode i) (children t))"
    by (cases t) simp_all
  with assms have "e' \<in> set (concat (map inclusiveDescendants
                                (filter (\<lambda>c. nid c \<noteq> i) (map (removeNode i) (children t)))))"
    by (simp add: descendants_def)
  then have "\<exists>e\<in>set (concat (map inclusiveDescendants (children t))). shallow e = shallow e' \<and> nid e \<noteq> i"
    by (intro removeNode_children_step inclusiveDescendants_removeNode) auto
  then show ?thesis by (simp add: descendants_def)
qed



lemma fst_onAllTrees [simp]: "fst (onAllTrees f st) = f (fst st)"
  by (simp add: onAllTrees_def)

lemma fst_removeElement [simp]: "fst (removeElement i st) = removeNode i (fst st)"
  by (simp add: removeElement_def)

lemma fst_removeAttribute [simp]:
  "fst (removeAttribute i name st) = updateAttributes i (removeAttributeIn name) (fst st)"
  by (simp add: removeAttribute_def)

lemma fst_setAttribute [simp]:
  "fst (setAttribute i name v st) = updateAttributes i (setAttributeIn name v) (fst st)"
  by (simp add: setAttribute_def)

lemma matches_shallow_eq:
  assumes "isElement e" "isElement e'" "shallow e = shallow e'"
  shows "matches sel e = matches sel e'"
  using assms by (simp add: matches_shallow shallow_def)

text \<open>One selector's turn of the noise loop, and the whole loop.\<close>

lemma removeElements_descendants:
  "e' \<in> set (descendants (fst (fold (\<lambda>el. removeElement (nid el)) els st))) \<Longrightarrow>
     \<exists>e\<in>set (descendants (fst st)). shallow e = shallow e' \<and> nid e \<notin> nid ` set els"
proof (induction els arbitrary: st e')
  case Nil
  then show ?case by auto
next
  case (Cons el els)
  from Cons.prems have "e' \<in> set (descendants (fst (fold (\<lambda>el. removeElement (nid el)) els
                                                        (removeElement (nid el) st))))"
    by simp
  from Cons.IH[OF this] obtain e1 where e1: "e1 \<in> set (descendants (removeNode (nid el) (fst st)))"
    "shallow e1 = shallow e'" "nid e1 \<notin> nid ` set els"
    by auto
  from descendants_removeNode[OF e1(1)] obtain e where e: "e \<in> set (descendants (fst st))"
    "shallow e = shallow e1" "nid e \<noteq> nid el"
    by auto
  from e(2) have "nid e = nid e1" by (simp add: shallow_def)
  with e e1 show ?case by (intro bexI[of _ e]) auto
qed

lemma noiseTurn_clears:
  assumes "e' \<in> set (descendants (fst (fold (\<lambda>el. removeElement (nid el))
                                          (querySelectorAll sel (fst st)) st)))"
  shows "(\<exists>e\<in>set (descendants (fst st)). shallow e = shallow e') \<and> \<not> matches sel e'"
proof -
  from removeElements_descendants[OF assms] obtain e where e: "e \<in> set (descendants (fst st))"
    "shallow e = shallow e'" "nid e \<notin> nid ` set (querySelectorAll sel (fst st))"
    by auto
  from assms have el': "isElement e'" by (rule descendants_elements)
  from e(1) have el: "isElement e" by (rule descendants_elements)
  have "\<not> matches sel e'"
  proof
    assume "matches sel e'"
    with matches_shallow_eq[OF el el' e(2), of sel] have "matches sel e" by simp
    with e(1) have "e \<in> set (querySelectorAll sel (fst st))" by (simp add: querySelectorAll_def)
    with e(3) show False by blast
  qed
  with e show ?thesis by blast
qed

lemma noiseLoop_clears:
  "e' \<in> set (descendants (fst (fold (\<lambda>selector st'.
             let elements = querySelectorAll selector (fst st')
             in fold (\<lambda>el. removeElement (nid el)) elements st') sels st))) \<Longrightarrow>
   (\<exists>e\<in>set (descendants (fst st)). shallow e = shallow e') \<and> (\<forall>sel\<in>set sels. \<not> matches sel e')"
proof (induction sels arbitrary: e' rule: rev_induct)
  case Nil
  then show ?case by auto
next
  case (snoc sel sels)
  let ?turn = "\<lambda>selector st'.
             let elements = querySelectorAll selector (fst st')
             in fold (\<lambda>el. removeElement (nid el)) elements st'"
  let ?st1 = "fold ?turn sels st"
  from snoc.prems have "e' \<in> set (descendants (fst (fold (\<lambda>el. removeElement (nid el))
                                          (querySelectorAll sel (fst ?st1)) ?st1)))"
    by (simp add: Let_def)
  from noiseTurn_clears[OF this] obtain e1 where e1: "e1 \<in> set (descendants (fst ?st1))"
    "shallow e1 = shallow e'" and nosel: "\<not> matches sel e'"
    by auto
  from snoc.IH[OF e1(1)] obtain e where e: "e \<in> set (descendants (fst st))" "shallow e = shallow e1"
    and before: "\<forall>s\<in>set sels. \<not> matches s e1"
    by auto
  from snoc.prems have el': "isElement e'" by (rule descendants_elements)
  from e1(1) have el1: "isElement e1" by (rule descendants_elements)
  from before matches_shallow_eq[OF el1 el' e1(2)] have "\<forall>s\<in>set sels. \<not> matches s e'"
    by simp
  with nosel e e1(2) show ?case by (intro conjI bexI[of _ e]) auto
qed

lemma removeNoise_clears:
  assumes "e \<in> set (descendants (fst (removeNoise st)))" "sel \<in> set noiseSelectors"
  shows "\<not> matches sel e"
  using noiseLoop_clears[of e noiseSelectors st] assms by (simp add: removeNoise_def)

text \<open>Writes to attributes other than \<open>class\<close> and \<open>id\<close>.\<close>

lemma inclusiveDescendants_updateAttributes:
  "inclusiveDescendants (updateAttributes i f t) = map (updateAttributes i f) (inclusiveDescendants t)"
proof (induction i f t rule: updateAttributes.induct)
  case (1 i f k cs)
  then have "map (inclusiveDescendants \<circ> updateAttributes i f) cs
             = map (map (updateAttributes i f) \<circ> inclusiveDescendants) cs" by simp
  then show ?case by (simp only: updateAttributes.simps inclusiveDescendants.simps map_map map_concat list.map)
next
  case (2 i f k t as cs)
  then have "map (inclusiveDescendants \<circ> updateAttributes i f) cs
             = map (map (updateAttributes i f) \<circ> inclusiveDescendants) cs" by simp
  then show ?case by (simp only: updateAttributes.simps inclusiveDescendants.simps map_map map_concat list.map)
next
  case (3 i f k s)
  show ?case by simp
qed

lemma descendants_updateAttributes:
  "descendants (updateAttributes i f t) = map (updateAttributes i f) (descendants t)"
proof -
  have "children (updateAttributes i f t) = map (updateAttributes i f) (children t)"
    by (cases t) simp_all
  then show ?thesis
    by (simp add: descendants_def map_concat inclusiveDescendants_updateAttributes comp_def)
qed

lemma getAttribute_removeAttributeIn:
  "getAttribute a (removeAttributeIn name as) = (if a = name then None else getAttribute a as)"
  by (induction as) (auto simp: getAttribute_def removeAttributeIn_def)

lemma getAttribute_setAttributeIn:
  "getAttribute a (setAttributeIn name v as) = (if a = name then Some v else getAttribute a as)"
  by (induction as) (auto simp: getAttribute_def)

lemma keepsClassAndId_refl: "keepsClassAndId e e"
  by (simp add: keepsClassAndId_def)

lemma keepsClassAndId_trans:
  "keepsClassAndId a b \<Longrightarrow> keepsClassAndId b c \<Longrightarrow> keepsClassAndId a c"
  by (auto simp: keepsClassAndId_def)

lemma keepsClassAndId_shallow: "shallow a = shallow b \<Longrightarrow> keepsClassAndId a b"
  by (simp add: keepsClassAndId_def shallow_def)

lemma updateAttributes_keeps:
  assumes "\<And>as. (getAttribute ''class'' (f as) = None
                   \<or> getAttribute ''class'' (f as) = getAttribute ''class'' as)
                \<and> (getAttribute ''id'' (f as) = None
                   \<or> getAttribute ''id'' (f as) = getAttribute ''id'' as)"
  shows "keepsClassAndId (updateAttributes i f e) e"
  using assms by (cases e) (auto simp: keepsClassAndId_def)

lemma removeAttribute_keeps:
  assumes "\<forall>e'\<in>set (descendants (fst st)). \<exists>e\<in>set (descendants t). keepsClassAndId e' e"
  shows "\<forall>e'\<in>set (descendants (fst (removeAttribute i name st))).
           \<exists>e\<in>set (descendants t). keepsClassAndId e' e"
proof
  fix e' assume "e' \<in> set (descendants (fst (removeAttribute i name st)))"
  then obtain e1 where e1: "e1 \<in> set (descendants (fst st))"
    "e' = updateAttributes i (removeAttributeIn name) e1"
    by (auto simp: descendants_updateAttributes)
  have "keepsClassAndId e' e1" unfolding e1(2)
    by (rule updateAttributes_keeps) (simp add: getAttribute_removeAttributeIn)
  moreover from assms e1(1) obtain e where "e \<in> set (descendants t)" "keepsClassAndId e1 e" by blast
  ultimately show "\<exists>e\<in>set (descendants t). keepsClassAndId e' e"
    using keepsClassAndId_trans by blast
qed

lemma setAttribute_keeps:
  assumes "name \<noteq> ''class''" "name \<noteq> ''id''"
    and "\<forall>e'\<in>set (descendants (fst st)). \<exists>e\<in>set (descendants t). keepsClassAndId e' e"
  shows "\<forall>e'\<in>set (descendants (fst (setAttribute i name v st))).
           \<exists>e\<in>set (descendants t). keepsClassAndId e' e"
proof
  fix e' assume "e' \<in> set (descendants (fst (setAttribute i name v st)))"
  then obtain e1 where e1: "e1 \<in> set (descendants (fst st))"
    "e' = updateAttributes i (setAttributeIn name v) e1"
    by (auto simp: descendants_updateAttributes)
  have "keepsClassAndId e' e1" unfolding e1(2)
    using assms(1,2) by (intro updateAttributes_keeps) (simp add: getAttribute_setAttributeIn)
  moreover from assms(3) e1(1) obtain e where "e \<in> set (descendants t)" "keepsClassAndId e1 e" by blast
  ultimately show "\<exists>e\<in>set (descendants t). keepsClassAndId e' e"
    using keepsClassAndId_trans by blast
qed

lemma cleanAttributes_keeps:
  assumes "\<forall>e'\<in>set (descendants (fst st)). \<exists>e\<in>set (descendants t). keepsClassAndId e' e"
  shows "\<forall>e'\<in>set (descendants (fst (cleanAttributes st))).
           \<exists>e\<in>set (descendants t). keepsClassAndId e' e"
  unfolding cleanAttributes_def Let_def
proof (rule fold_invariant[where I = "\<lambda>st. \<forall>e'\<in>set (descendants (fst st)).
                                             \<exists>e\<in>set (descendants t). keepsClassAndId e' e", OF assms])
  fix el and st' :: sanitizerState
  assume inv: "\<forall>e'\<in>set (descendants (fst st')). \<exists>e\<in>set (descendants t). keepsClassAndId e' e"
  show "\<forall>e'\<in>set (descendants (fst (fold (\<lambda>attr st'.
               if fst attr \<notin> set allowedAttributes
               then removeAttribute (nid el) (fst attr) st' else st') (attributesOf el) st'))).
          \<exists>e\<in>set (descendants t). keepsClassAndId e' e"
  proof (rule fold_invariant[where I = "\<lambda>st. \<forall>e'\<in>set (descendants (fst st)).
                                             \<exists>e\<in>set (descendants t). keepsClassAndId e' e", OF inv])
    fix attr :: attribute and st'' :: sanitizerState
    assume inv': "\<forall>e'\<in>set (descendants (fst st'')). \<exists>e\<in>set (descendants t). keepsClassAndId e' e"
    show "\<forall>e'\<in>set (descendants (fst (if fst attr \<notin> set allowedAttributes
                                        then removeAttribute (nid el) (fst attr) st'' else st''))).
            \<exists>e\<in>set (descendants t). keepsClassAndId e' e"
      using removeAttribute_keeps[OF inv'] inv' by (cases "fst attr \<in> set allowedAttributes") simp_all
  qed
qed

lemma optimizeImages_keeps:
  assumes "\<forall>e'\<in>set (descendants (fst st)). \<exists>e\<in>set (descendants t). keepsClassAndId e' e"
  shows "\<forall>e'\<in>set (descendants (fst (optimizeImages st))).
           \<exists>e\<in>set (descendants t). keepsClassAndId e' e"
  unfolding optimizeImages_def
proof (rule fold_invariant[where I = "\<lambda>st. \<forall>e'\<in>set (descendants (fst st)).
                                             \<exists>e\<in>set (descendants t). keepsClassAndId e' e", OF assms])
  fix img and st' :: sanitizerState
  let ?I = "\<lambda>st. \<forall>e'\<in>set (descendants (fst st)). \<exists>e\<in>set (descendants t). keepsClassAndId e' e"
  assume inv: "?I st'"
  let ?st1 = "if imgLoading img = [] then setAttribute (nid img) ''loading'' ''lazy'' st' else st'"
  let ?st2 = "if imgAlt img = [] then setAttribute (nid img) ''alt'' altPlaceholder ?st1 else ?st1"
  have 1: "?I ?st1"
    using setAttribute_keeps[where name = "''loading''", OF _ _ inv] inv by simp
  have 2: "?I ?st2"
    using setAttribute_keeps[where name = "''alt''", OF _ _ 1] 1 by simp
  have "?I (removeAttribute (nid img) ''style'' ?st2)" by (rule removeAttribute_keeps[OF 2])
  then show "?I (optimizeImage img st')" by (simp add: optimizeImage_def Let_def)
qed

lemma fst_fold:
  assumes "\<And>x st. fst (F x st) = G x (fst st)"
  shows "fst (fold F xs st) = fold G xs (fst st)"
  using assms by (induction xs arbitrary: st) simp_all

lemma fst_cleanAttributes:
  "fst (cleanAttributes st) = fold attributeTurn (descendants (fst st)) (fst st)"
proof -
  have inner: "fst (fold (\<lambda>attr st'. if fst attr \<notin> set allowedAttributes
                                   then removeAttribute (nid el) (fst attr) st' else st')
                      (attributesOf el) st')
               = attributeTurn el (fst st')" for el and st' :: sanitizerState
    unfolding attributeTurn_def by (rule fst_fold) simp
  show ?thesis
    unfolding cleanAttributes_def Let_def collectElements_descendants
    by (rule fst_fold) (rule inner)
qed

lemma updateAttributes_tagOf [simp]: "tagOf (updateAttributes i f t) = tagOf t"
  by (cases t) simp_all

lemma updateAttributes_isElement [simp]: "isElement (updateAttributes i f t) = isElement t"
  by (cases t) simp_all

lemma attributesOf_updateAttributes:
  "attributesOf (updateAttributes i f t)
     = (if isElement t \<and> nid t = i then f (attributesOf t) else attributesOf t)"
  by (cases t) simp_all

lemma removeAttributeIn_names:
  "fst ` set (removeAttributeIn name as) = fst ` set as - {name}"
  by (auto simp: removeAttributeIn_def)

lemma setAttributeIn_names:
  "fst ` set (setAttributeIn name v as) = insert name (fst ` set as)"
  by (induction as) auto

text \<open>One turn of the attribute loop, seen from one node.\<close>

lemma attributeStep_node:
  "nid (fold (\<lambda>attr t'. if fst attr \<notin> set allowedAttributes
                      then updateAttributes i (removeAttributeIn (fst attr)) t' else t') ats x) = nid x
   \<and> isElement (fold (\<lambda>attr t'. if fst attr \<notin> set allowedAttributes
                      then updateAttributes i (removeAttributeIn (fst attr)) t' else t') ats x)
       = isElement x
   \<and> fst ` set (attributesOf (fold (\<lambda>attr t'. if fst attr \<notin> set allowedAttributes
                      then updateAttributes i (removeAttributeIn (fst attr)) t' else t') ats x))
       \<subseteq> fst ` set (attributesOf x)"
proof (induction ats arbitrary: x)
  case Nil
  show ?case by simp
next
  case (Cons attr0 ats)
  let ?step = "\<lambda>attr t'. if fst attr \<notin> set allowedAttributes
                      then updateAttributes i (removeAttributeIn (fst attr)) t' else t'"
  define x1 where "x1 = ?step attr0 x"
  have unfold: "fold ?step (attr0 # ats) x = fold ?step ats x1" by (simp add: x1_def)
  have a1: "nid x1 = nid x" by (simp add: x1_def)
  have a2: "isElement x1 = isElement x" by (simp add: x1_def)
  have a3: "fst ` set (attributesOf x1) \<subseteq> fst ` set (attributesOf x)"
  proof (cases "fst attr0 \<in> set allowedAttributes")
    case True
    then show ?thesis by (simp add: x1_def)
  next
    case False
    then have "x1 = updateAttributes i (removeAttributeIn (fst attr0)) x" by (simp add: x1_def)
    then show ?thesis
      by (cases "isElement x \<and> nid x = i")
         (auto simp: attributesOf_updateAttributes removeAttributeIn_names)
  qed
  from Cons[of x1] have b1: "nid (fold ?step ats x1) = nid x1"
    and b2: "isElement (fold ?step ats x1) = isElement x1"
    and b3: "fst ` set (attributesOf (fold ?step ats x1)) \<subseteq> fst ` set (attributesOf x1)"
    by blast+
  from b3 a3 have "fst ` set (attributesOf (fold ?step ats x1)) \<subseteq> fst ` set (attributesOf x)"
    by (rule subset_trans)
  with a1 a2 b1 b2 have "nid (fold ?step ats x1) = nid x
        \<and> isElement (fold ?step ats x1) = isElement x
        \<and> fst ` set (attributesOf (fold ?step ats x1)) \<subseteq> fst ` set (attributesOf x)"
    by simp
  then show ?case unfolding unfold .
qed

lemma attributeTurn_node:
  "nid (attributeTurn el x) = nid x \<and> isElement (attributeTurn el x) = isElement x
   \<and> fst ` set (attributesOf (attributeTurn el x)) \<subseteq> fst ` set (attributesOf x)"
  unfolding attributeTurn_def by (rule attributeStep_node)

lemma attributeStep_removes:
  assumes "a \<in> fst ` set ats" "a \<notin> set allowedAttributes" "nid x = i" "isElement x"
  shows "a \<notin> fst ` set (attributesOf
            (fold (\<lambda>attr t'. if fst attr \<notin> set allowedAttributes
                      then updateAttributes i (removeAttributeIn (fst attr)) t' else t') ats x))"
  using assms
proof (induction ats arbitrary: x)
  case Nil
  then show ?case by simp
next
  case (Cons attr0 ats)
  let ?step = "\<lambda>attr t'. if fst attr \<notin> set allowedAttributes
                      then updateAttributes i (removeAttributeIn (fst attr)) t' else t'"
  define x1 where "x1 = ?step attr0 x"
  have x1: "nid x1 = i" "isElement x1" using Cons.prems by (auto simp: x1_def)
  have unfold: "fold ?step (attr0 # ats) x = fold ?step ats x1" by (simp add: x1_def)
  show ?case
  proof (cases "fst attr0 = a")
    case True
    with Cons.prems have "x1 = updateAttributes i (removeAttributeIn a) x" by (simp add: x1_def)
    with Cons.prems have "a \<notin> fst ` set (attributesOf x1)"
      by (simp add: attributesOf_updateAttributes removeAttributeIn_names)
    moreover have "fst ` set (attributesOf (fold ?step ats x1)) \<subseteq> fst ` set (attributesOf x1)"
      using attributeStep_node[of i ats x1] by blast
    ultimately have "a \<notin> fst ` set (attributesOf (fold ?step ats x1))" by blast
    then show ?thesis unfolding unfold .
  next
    case False
    with Cons.prems have "a \<in> fst ` set ats" by auto
    from Cons.IH[OF this Cons.prems(2) x1] show ?thesis unfolding unfold .
  qed
qed

lemma attributeTurns_node:
  "nid (fold attributeTurn els x) = nid x \<and> isElement (fold attributeTurn els x) = isElement x
   \<and> fst ` set (attributesOf (fold attributeTurn els x)) \<subseteq> fst ` set (attributesOf x)"
proof (induction els arbitrary: x)
  case Nil
  show ?case by simp
next
  case (Cons el els)
  from Cons[of "attributeTurn el x"] attributeTurn_node[of el x] show ?case by auto
qed

lemma attributeTurns_allowed:
  assumes "e \<in> set els" "isElement e" "a \<in> fst ` set (attributesOf (fold attributeTurn els e))"
  shows "a \<in> set allowedAttributes"
proof (rule ccontr)
  assume bad: "a \<notin> set allowedAttributes"
  from assms(1) obtain pre post where els: "els = pre @ e # post" by (auto simp: in_set_conv_decomp)
  let ?x1 = "fold attributeTurn pre e"
  from attributeTurns_node[of pre e] assms(2) have x1: "nid ?x1 = nid e" "isElement ?x1" by auto
  from assms(3) attributeTurns_node[of els e] have "a \<in> fst ` set (attributesOf e)" by blast
  from attributeStep_removes[OF this bad x1]
  have "a \<notin> fst ` set (attributesOf (attributeTurn e ?x1))" by (simp add: attributeTurn_def)
  moreover have "fst ` set (attributesOf (fold attributeTurn post (attributeTurn e ?x1)))
                   \<subseteq> fst ` set (attributesOf (attributeTurn e ?x1))"
    using attributeTurns_node[of post "attributeTurn e ?x1"] by blast
  ultimately have "a \<notin> fst ` set (attributesOf (fold attributeTurn els e))"
    by (auto simp: els)
  with assms(3) show False by contradiction
qed

lemma descendants_attributeStep:
  "descendants (fold (\<lambda>attr t'. if fst attr \<notin> set allowedAttributes
                      then updateAttributes i (removeAttributeIn (fst attr)) t' else t') ats t)
   = map (fold (\<lambda>attr t'. if fst attr \<notin> set allowedAttributes
                      then updateAttributes i (removeAttributeIn (fst attr)) t' else t') ats)
       (descendants t)"
proof (induction ats arbitrary: t)
  case Nil
  show ?case by simp
next
  case (Cons attr0 ats)
  show ?case
  proof (cases "fst attr0 \<in> set allowedAttributes")
    case True
    with Cons[of t] show ?thesis by simp
  next
    case False
    with Cons[of "updateAttributes i (removeAttributeIn (fst attr0)) t"] show ?thesis
      by (simp add: descendants_updateAttributes comp_def)
  qed
qed

lemma descendants_attributeTurn:
  "descendants (attributeTurn el t) = map (attributeTurn el) (descendants t)"
  unfolding attributeTurn_def by (rule descendants_attributeStep)

lemma descendants_attributeTurns:
  "descendants (fold attributeTurn els t) = map (fold attributeTurn els) (descendants t)"
proof (induction els arbitrary: t)
  case Nil
  show ?case by simp
next
  case (Cons el els)
  show ?case by (simp add: Cons descendants_attributeTurn comp_def)
qed

lemma cleanAttributes_allowed:
  assumes "e \<in> set (descendants (fst (cleanAttributes st)))" "a \<in> fst ` set (attributesOf e)"
  shows "a \<in> set allowedAttributes"
proof -
  from assms(1) obtain e0 where e0: "e0 \<in> set (descendants (fst st))"
    "e = fold attributeTurn (descendants (fst st)) e0"
    by (auto simp: fst_cleanAttributes descendants_attributeTurns)
  from e0(1) have "isElement e0" by (rule descendants_elements)
  with e0 assms(2) show ?thesis using attributeTurns_allowed by blast
qed


lemma imgLoading_nonempty: "imgLoading img \<noteq> []"
  by (simp add: imgLoading_def split: option.splits)

lemma optimizeImage_fst:
  "fst (optimizeImage img st)
     = updateAttributes (nid img) (removeAttributeIn ''style'')
         (if imgAlt img = [] then updateAttributes (nid img) (setAttributeIn ''alt'' altPlaceholder) (fst st)
          else fst st)"
  by (simp add: optimizeImage_def Let_def imgLoading_nonempty)

lemma optimizeImages_allowed:
  assumes "\<forall>e\<in>set (descendants (fst st)). \<forall>a\<in>fst ` set (attributesOf e). a \<in> set allowedAttributes"
  shows "\<forall>e\<in>set (descendants (fst (optimizeImages st))).
           \<forall>a\<in>fst ` set (attributesOf e). a \<in> set allowedAttributes"
  unfolding optimizeImages_def
proof (rule fold_invariant[where I = "\<lambda>st. \<forall>e\<in>set (descendants (fst st)).
                        \<forall>a\<in>fst ` set (attributesOf e). a \<in> set allowedAttributes", OF assms])
  fix img and st' :: sanitizerState
  let ?I = "\<lambda>t. \<forall>e\<in>set (descendants t). \<forall>a\<in>fst ` set (attributesOf e). a \<in> set allowedAttributes"
  assume inv: "?I (fst st')"
  let ?t1 = "if imgAlt img = [] then updateAttributes (nid img) (setAttributeIn ''alt'' altPlaceholder) (fst st')
             else fst st'"
  have alt: "''alt'' \<in> set allowedAttributes" by (simp add: allowedAttributes_def)
  have 1: "?I ?t1"
  proof (cases "imgAlt img = []")
    case True
    have "?I (updateAttributes (nid img) (setAttributeIn ''alt'' altPlaceholder) (fst st'))"
    proof (intro ballI)
      fix e a
      assume "e \<in> set (descendants (updateAttributes (nid img) (setAttributeIn ''alt'' altPlaceholder) (fst st')))"
        and a: "a \<in> fst ` set (attributesOf e)"
      then obtain e0 where e0: "e0 \<in> set (descendants (fst st'))"
        "e = updateAttributes (nid img) (setAttributeIn ''alt'' altPlaceholder) e0"
        by (auto simp: descendants_updateAttributes)
      from a e0(2) have "a = ''alt'' \<or> a \<in> fst ` set (attributesOf e0)"
        by (auto simp: attributesOf_updateAttributes setAttributeIn_names split: if_splits)
      with inv e0(1) alt show "a \<in> set allowedAttributes" by blast
    qed
    with True show ?thesis by simp
  next
    case False
    with inv show ?thesis by simp
  qed
  have "?I (updateAttributes (nid img) (removeAttributeIn ''style'') ?t1)"
  proof (intro ballI)
    fix e a
    assume "e \<in> set (descendants (updateAttributes (nid img) (removeAttributeIn ''style'') ?t1))"
      and a: "a \<in> fst ` set (attributesOf e)"
    then obtain e0 where e0: "e0 \<in> set (descendants ?t1)"
      "e = updateAttributes (nid img) (removeAttributeIn ''style'') e0"
      by (auto simp: descendants_updateAttributes)
    from a e0(2) have "a \<in> fst ` set (attributesOf e0)"
      by (auto simp: attributesOf_updateAttributes removeAttributeIn_names split: if_splits)
    with 1 e0(1) show "a \<in> set allowedAttributes" by blast
  qed
  then show "?I (fst (optimizeImage img st'))" unfolding optimizeImage_fst .
qed

text \<open>The root of the copy is written to by nothing.\<close>

lemma updateAttributes_root:
  "nid t \<noteq> i \<Longrightarrow> shallow (updateAttributes i f t) = shallow t"
  by (cases t) (simp_all add: shallow_def)

lemma root_kept_removeElement:
  assumes "shallow (fst st) = x \<and> (\<forall>e\<in>set (descendants (fst st)). nid e \<noteq> fst x)"
  shows "shallow (fst (removeElement i st)) = x
         \<and> (\<forall>e\<in>set (descendants (fst (removeElement i st))). nid e \<noteq> fst x)"
proof
  from assms show "shallow (fst (removeElement i st)) = x" by simp
next
  show "\<forall>e\<in>set (descendants (fst (removeElement i st))). nid e \<noteq> fst x"
  proof
    fix e' assume "e' \<in> set (descendants (fst (removeElement i st)))"
    then have "e' \<in> set (descendants (removeNode i (fst st)))" by simp
    from descendants_removeNode[OF this] obtain e where "e \<in> set (descendants (fst st))"
      "shallow e = shallow e'" by blast
    with assms show "nid e' \<noteq> fst x" by (auto simp: shallow_def)
  qed
qed

lemma root_kept_update:
  assumes "i \<noteq> fst x"
    and "shallow (fst st) = x \<and> (\<forall>e\<in>set (descendants (fst st)). nid e \<noteq> fst x)"
  shows "shallow (updateAttributes i f (fst st)) = x
         \<and> (\<forall>e\<in>set (descendants (updateAttributes i f (fst st))). nid e \<noteq> fst x)"
proof
  from assms have "nid (fst st) \<noteq> i" by (auto simp: shallow_def)
  with assms(2) show "shallow (updateAttributes i f (fst st)) = x"
    by (simp add: updateAttributes_root)
next
  from assms(2) show "\<forall>e\<in>set (descendants (updateAttributes i f (fst st))). nid e \<noteq> fst x"
    by (auto simp: descendants_updateAttributes)
qed

lemma root_kept_removeNoise:
  assumes inv: "shallow (fst st) = x \<and> (\<forall>e\<in>set (descendants (fst st)). nid e \<noteq> fst x)"
  shows "shallow (fst (removeNoise st)) = x
         \<and> (\<forall>e\<in>set (descendants (fst (removeNoise st))). nid e \<noteq> fst x)"
  unfolding removeNoise_def
proof (rule fold_invariant[where I = "\<lambda>st. shallow (fst st) = x
                                       \<and> (\<forall>e\<in>set (descendants (fst st)). nid e \<noteq> fst x)", OF inv])
  fix selector and st' :: sanitizerState
  assume inv': "shallow (fst st') = x \<and> (\<forall>e\<in>set (descendants (fst st')). nid e \<noteq> fst x)"
  show "shallow (fst (let elements = querySelectorAll selector (fst st')
                       in fold (\<lambda>el. removeElement (nid el)) elements st')) = x
        \<and> (\<forall>e\<in>set (descendants (fst (let elements = querySelectorAll selector (fst st')
                       in fold (\<lambda>el. removeElement (nid el)) elements st'))). nid e \<noteq> fst x)"
    unfolding Let_def
    by (rule fold_invariant[where I = "\<lambda>st. shallow (fst st) = x
                                       \<and> (\<forall>e\<in>set (descendants (fst st)). nid e \<noteq> fst x)", OF inv'])
       (rule root_kept_removeElement)
qed

lemma root_kept_cleanAttributes:
  assumes inv: "shallow (fst st) = x \<and> (\<forall>e\<in>set (descendants (fst st)). nid e \<noteq> fst x)"
  shows "shallow (fst (cleanAttributes st)) = x
         \<and> (\<forall>e\<in>set (descendants (fst (cleanAttributes st))). nid e \<noteq> fst x)"
  unfolding cleanAttributes_def Let_def collectElements_descendants
proof (rule fold_invariant[where I = "\<lambda>st. shallow (fst st) = x
                                       \<and> (\<forall>e\<in>set (descendants (fst st)). nid e \<noteq> fst x)", OF inv])
  fix el and st' :: sanitizerState
  assume el: "el \<in> set (descendants (fst st))"
    and inv': "shallow (fst st') = x \<and> (\<forall>e\<in>set (descendants (fst st')). nid e \<noteq> fst x)"
  from el inv have ne: "nid el \<noteq> fst x" by blast
  show "shallow (fst (fold (\<lambda>attr st'. if fst attr \<notin> set allowedAttributes
                                         then removeAttribute (nid el) (fst attr) st' else st')
                        (attributesOf el) st')) = x
        \<and> (\<forall>e\<in>set (descendants (fst (fold (\<lambda>attr st'. if fst attr \<notin> set allowedAttributes
                                         then removeAttribute (nid el) (fst attr) st' else st')
                        (attributesOf el) st'))). nid e \<noteq> fst x)"
  proof (rule fold_invariant[where I = "\<lambda>st. shallow (fst st) = x
                                       \<and> (\<forall>e\<in>set (descendants (fst st)). nid e \<noteq> fst x)", OF inv'])
    fix attr :: attribute and st'' :: sanitizerState
    assume inv'': "shallow (fst st'') = x \<and> (\<forall>e\<in>set (descendants (fst st'')). nid e \<noteq> fst x)"
    show "shallow (fst (if fst attr \<notin> set allowedAttributes
                        then removeAttribute (nid el) (fst attr) st'' else st'')) = x
          \<and> (\<forall>e\<in>set (descendants (fst (if fst attr \<notin> set allowedAttributes
                        then removeAttribute (nid el) (fst attr) st'' else st''))). nid e \<noteq> fst x)"
      using root_kept_update[OF ne inv'', of "removeAttributeIn (fst attr)"] inv''
      by (cases "fst attr \<in> set allowedAttributes") simp_all
  qed
qed

lemma root_kept_optimizeImages:
  assumes inv: "shallow (fst st) = x \<and> (\<forall>e\<in>set (descendants (fst st)). nid e \<noteq> fst x)"
  shows "shallow (fst (optimizeImages st)) = x
         \<and> (\<forall>e\<in>set (descendants (fst (optimizeImages st))). nid e \<noteq> fst x)"
  unfolding optimizeImages_def
proof (rule fold_invariant[where I = "\<lambda>st. shallow (fst st) = x
                                       \<and> (\<forall>e\<in>set (descendants (fst st)). nid e \<noteq> fst x)", OF inv])
  fix img and st' :: sanitizerState
  let ?I = "\<lambda>t. shallow t = x \<and> (\<forall>e\<in>set (descendants t). nid e \<noteq> fst x)"
  assume img: "img \<in> set (querySelectorAll (TagSel ''img'') (fst st))" and inv': "?I (fst st')"
  from img inv have ne: "nid img \<noteq> fst x" by (auto simp: querySelectorAll_def)
  let ?t1 = "if imgAlt img = [] then updateAttributes (nid img) (setAttributeIn ''alt'' altPlaceholder) (fst st')
             else fst st'"
  have 1: "?I ?t1" using root_kept_update[OF ne inv'] inv' by simp
  have "?I (updateAttributes (nid img) (removeAttributeIn ''style'') ?t1)"
    using root_kept_update[where st = "(?t1, snd st')", OF ne] 1 by simp
  then show "?I (fst (optimizeImage img st'))" unfolding optimizeImage_fst .
qed

lemma root_kept_cloneNode:
  "shallow (fst (cloneNode True (Element i t as cs) s)) = (nextId s, t, as)
   \<and> (\<forall>e\<in>set (descendants (fst (cloneNode True (Element i t as cs) s))). nid e \<noteq> nextId s)"
proof -
  obtain cs' n' where cs': "cloneTrees cs (Suc (nextId s)) = (cs', n')"
    by (cases "cloneTrees cs (Suc (nextId s))")
  then have copy: "fst (cloneNode True (Element i t as cs) s) = Element (nextId s) t as cs'"
    by (simp add: cloneNode_def)
  have "\<forall>e\<in>set (descendants (Element (nextId s) t as cs')). nid e \<noteq> nextId s"
  proof
    fix e assume "e \<in> set (descendants (Element (nextId s) t as cs'))"
    then obtain c where c: "c \<in> set cs'" "e \<in> set (inclusiveDescendants c)"
      by (auto simp: descendants_def)
    from c(2) have "nid e \<in> set (idsOf c)" by (rule inclusiveDescendants_ids)
    with cloneTree_fresh(2)[OF cs'] c(1) have "Suc (nextId s) \<le> nid e" by blast
    then show "nid e \<noteq> nextId s" by simp
  qed
  with copy show ?thesis by (simp add: shallow_def)
qed

lemma keepsClassAndId_nid: "keepsClassAndId e' e \<Longrightarrow> nid e' = nid e \<and> tagOf e' = tagOf e"
  by (simp add: keepsClassAndId_def)

text \<open>The elements of a copy are the elements of the original, in order, under distinct identities.\<close>

lemma eraseIds_tagOf [simp]: "tagOf (eraseIds t) = tagOf t"
  by (cases t) simp_all

lemma eraseIds_attributesOf [simp]: "attributesOf (eraseIds t) = attributesOf t"
  by (cases t) simp_all

lemma inclusiveDescendants_eraseIds:
  "inclusiveDescendants (eraseIds t) = map eraseIds (inclusiveDescendants t)"
proof (induction t rule: eraseIds.induct)
  case (1 i cs)
  then have "map (inclusiveDescendants \<circ> eraseIds) cs = map (map eraseIds \<circ> inclusiveDescendants) cs"
    by simp
  then show ?case by (simp only: eraseIds.simps inclusiveDescendants.simps map_map map_concat)
next
  case (2 i t as cs)
  then have "map (inclusiveDescendants \<circ> eraseIds) cs = map (map eraseIds \<circ> inclusiveDescendants) cs"
    by simp
  then show ?case
    by (simp only: eraseIds.simps inclusiveDescendants.simps map_map map_concat list.map)
next
  case (3 i s)
  show ?case by simp
qed

lemma descendants_eraseIds: "descendants (eraseIds t) = map eraseIds (descendants t)"
proof -
  have "children (eraseIds t) = map eraseIds (children t)" by (cases t) simp_all
  then show ?thesis
    by (simp add: descendants_def map_concat inclusiveDescendants_eraseIds comp_def)
qed

lemma eraseIds_same_elements:
  assumes "eraseIds a = eraseIds b"
  shows "map (\<lambda>e. (tagOf e, attributesOf e)) (descendants a)
         = map (\<lambda>e. (tagOf e, attributesOf e)) (descendants b)"
proof -
  have "map (\<lambda>e. (tagOf e, attributesOf e)) (descendants t)
        = map (\<lambda>e. (tagOf e, attributesOf e)) (descendants (eraseIds t))" for t
    by (simp add: descendants_eraseIds comp_def)
  from this[of a] this[of b] assms show ?thesis by simp
qed

lemma distinct_concat_sub:
  assumes "distinct (concat (map f cs))"
    and "\<And>c. c \<in> set cs \<Longrightarrow> distinct (f c) \<Longrightarrow> distinct (g c)"
    and "\<And>c. c \<in> set cs \<Longrightarrow> set (g c) \<subseteq> set (f c)"
  shows "distinct (concat (map g cs))"
  using assms
proof (induction cs)
  case Nil
  show ?case by simp
next
  case (Cons c cs)
  from Cons.prems(1) have d: "distinct (f c)" "distinct (concat (map f cs))"
    "set (f c) \<inter> set (concat (map f cs)) = {}" by auto
  have 1: "distinct (g c)" using Cons.prems(2)[of c] d(1) by simp
  have 2: "distinct (concat (map g cs))"
    using Cons.IH[OF d(2)] Cons.prems(2,3) by simp
  have "set (concat (map g cs)) \<subseteq> set (concat (map f cs))"
    using Cons.prems(3) by fastforce
  moreover have "set (g c) \<subseteq> set (f c)" using Cons.prems(3) by simp
  ultimately have "set (g c) \<inter> set (concat (map g cs)) = {}" using d(3) by blast
  with 1 2 show ?case by simp
qed

lemma inclusiveDescendants_nids: "set (map nid (inclusiveDescendants t)) \<subseteq> set (idsOf t)"
  using inclusiveDescendants_ids by auto

lemma distinct_inclusiveDescendants:
  "distinct (idsOf t) \<Longrightarrow> distinct (map nid (inclusiveDescendants t))"
proof (induction t rule: inclusiveDescendants.induct)
  case (1 i cs)
  from 1(2) have "distinct (concat (map idsOf cs))" by simp
  then have "distinct (concat (map (\<lambda>c. map nid (inclusiveDescendants c)) cs))"
    using 1(1) inclusiveDescendants_nids by (rule distinct_concat_sub)
  then show ?case by (simp add: map_concat comp_def)
next
  case (2 i t as cs)
  from 2(2) have d: "distinct (concat (map idsOf cs))" "i \<notin> set (concat (map idsOf cs))" by auto
  from d(1) have "distinct (concat (map (\<lambda>c. map nid (inclusiveDescendants c)) cs))"
    using 2(1) inclusiveDescendants_nids by (rule distinct_concat_sub)
  moreover have "set (concat (map (\<lambda>c. map nid (inclusiveDescendants c)) cs))
                   \<subseteq> set (concat (map idsOf cs))"
    using inclusiveDescendants_nids by fastforce
  ultimately show ?case using d(2) by (auto simp: map_concat comp_def)
next
  case (3 i s)
  show ?case by simp
qed

lemma distinct_descendants:
  assumes "distinct (idsOf t)"
  shows "distinct (map nid (descendants t))"
proof -
  from assms have "distinct (concat (map idsOf (children t)))" by (cases t) simp_all
  then have "distinct (concat (map (\<lambda>c. map nid (inclusiveDescendants c)) (children t)))"
    using distinct_inclusiveDescendants inclusiveDescendants_nids by (rule distinct_concat_sub)
  then show ?thesis by (simp add: descendants_def map_concat comp_def)
qed

lemma cloneTree_distinct:
  "cloneTree deep t n = (r, n') \<Longrightarrow> distinct (idsOf r)"
  "cloneTrees ts n = (rs, n') \<Longrightarrow> distinct (concat (map idsOf rs))"
proof (induction deep t n and ts n arbitrary: r n' and rs n' rule: cloneTree_cloneTrees.induct)
  case (1 deep i cs n)
  show ?case
  proof (cases deep)
    case True
    obtain cs' m where c: "cloneTrees cs (Suc n) = (cs', m)" by (cases "cloneTrees cs (Suc n)")
    from 1(2) True c have r: "r = Document n cs'" by simp
    have d: "distinct (concat (map idsOf cs'))" using 1(1)[OF True c] .
    from cloneTree_fresh(2)[OF c] have "\<forall>i\<in>set (concat (map idsOf cs')). Suc n \<le> i" by auto
    then have "n \<notin> set (concat (map idsOf cs'))" by fastforce
    with d r show ?thesis by simp
  next
    case False
    with 1(2) show ?thesis by auto
  qed
next
  case (2 deep i t as cs n)
  show ?case
  proof (cases deep)
    case True
    obtain cs' m where c: "cloneTrees cs (Suc n) = (cs', m)" by (cases "cloneTrees cs (Suc n)")
    from 2(2) True c have r: "r = Element n t as cs'" by simp
    have d: "distinct (concat (map idsOf cs'))" using 2(1)[OF True c] .
    from cloneTree_fresh(2)[OF c] have "\<forall>i\<in>set (concat (map idsOf cs')). Suc n \<le> i" by auto
    then have "n \<notin> set (concat (map idsOf cs'))" by fastforce
    with d r show ?thesis by simp
  next
    case False
    with 2(2) show ?thesis by auto
  qed
next
  case (3 deep i s n)
  then show ?case by auto
next
  case (4 n)
  then show ?case by auto
next
  case (5 c cs n)
  obtain c' n1 where c1: "cloneTree True c n = (c', n1)" by (cases "cloneTree True c n")
  obtain cs' n2 where c2: "cloneTrees cs n1 = (cs', n2)" by (cases "cloneTrees cs n1")
  from 5(3) c1 c2 have rs: "rs = c' # cs'" by simp
  have d1: "distinct (idsOf c')" using 5(1)[OF c1] .
  have d2: "distinct (concat (map idsOf cs'))" using 5(2)[OF c1[symmetric] refl c2] .
  from cloneTree_fresh(1)[OF c1] have f1: "\<forall>i\<in>set (idsOf c'). i < n1" by blast
  from cloneTree_fresh(2)[OF c2] have f2: "\<forall>i\<in>set (concat (map idsOf cs')). n1 \<le> i" by auto
  from f1 f2 have "set (idsOf c') \<inter> set (concat (map idsOf cs')) = {}" by fastforce
  with d1 d2 rs show ?case by simp
qed

lemma cloneNode_distinct: "distinct (map nid (descendants (fst (cloneNode deep c s))))"
proof -
  obtain r n where r: "cloneTree deep c (nextId s) = (r, n)" by (cases "cloneTree deep c (nextId s)")
  from cloneTree_distinct(1)[OF r] have "distinct (map nid (descendants r))"
    by (rule distinct_descendants)
  with r show ?thesis by (simp add: cloneNode_def)
qed

lemma cloneNode_same_elements:
  "map (\<lambda>e. (tagOf e, attributesOf e)) (descendants (fst (cloneNode True c s)))
   = map (\<lambda>e. (tagOf e, attributesOf e)) (descendants c)"
proof -
  have "eraseIds (fst (cloneNode True c s)) = eraseIds c"
    using cloneTree_shape(1)[of c "nextId s"] by (simp add: cloneNode_def case_prod_beta)
  then show ?thesis by (rule eraseIds_same_elements)
qed

lemma below_root_no_noise:
  assumes "cleanContent (Some c) s = (Some fragment, s')"
  shows "\<forall>e\<in>set (descendants fragment). \<forall>sel\<in>set noiseSelectors. \<not> matches sel e"
proof (intro ballI)
  fix e' sel
  assume e': "e' \<in> set (descendants fragment)" and sel: "sel \<in> set noiseSelectors"
  let ?st1 = "removeNoise (cloneNode True c s)"
  from assms have frag: "fragment = fst (optimizeImages (cleanAttributes ?st1))"
    by (simp add: cleanContent_def Let_def)
  have "\<forall>e'\<in>set (descendants (fst ?st1)). \<exists>e\<in>set (descendants (fst ?st1)). keepsClassAndId e' e"
    using keepsClassAndId_refl by blast
  then have "\<forall>e'\<in>set (descendants (fst (cleanAttributes ?st1))).
               \<exists>e\<in>set (descendants (fst ?st1)). keepsClassAndId e' e"
    by (rule cleanAttributes_keeps)
  then have "\<forall>e'\<in>set (descendants (fst (optimizeImages (cleanAttributes ?st1)))).
               \<exists>e\<in>set (descendants (fst ?st1)). keepsClassAndId e' e"
    by (rule optimizeImages_keeps)
  with e' frag obtain e where e: "e \<in> set (descendants (fst ?st1))" "keepsClassAndId e' e"
    by blast
  from e(1) sel have clean: "\<not> matches sel e" by (rule removeNoise_clears)
  from e(1) have el: "isElement e" by (rule descendants_elements)
  from sel have reads: "readsTagClassIdOnly sel" using noiseSelectors_read by blast
  show "\<not> matches sel e'"
  proof
    assume "matches sel e'"
    with reads el e(2) have "matches sel e" by (intro matches_keeps[of sel e e']) auto
    with clean show False ..
  qed
qed

lemma fragment_origin:
  assumes "cleanContent (Some c) s = (Some fragment, s')"
    and "e' \<in> set (descendants fragment)"
  shows "\<exists>e\<in>set (descendants (fst (cloneNode True c s))).
           nid e = nid e' \<and> tagOf e = tagOf e' \<and> (\<forall>sel\<in>set noiseSelectors. \<not> matches sel e)"
proof -
  let ?st0 = "cloneNode True c s"
  let ?st1 = "removeNoise ?st0"
  from assms(1) have frag: "fragment = fst (optimizeImages (cleanAttributes ?st1))"
    by (simp add: cleanContent_def Let_def)
  have "\<forall>e'\<in>set (descendants (fst ?st1)). \<exists>e\<in>set (descendants (fst ?st1)). keepsClassAndId e' e"
    using keepsClassAndId_refl by blast
  then have "\<forall>e'\<in>set (descendants (fst (cleanAttributes ?st1))).
               \<exists>e\<in>set (descendants (fst ?st1)). keepsClassAndId e' e"
    by (rule cleanAttributes_keeps)
  then have "\<forall>e'\<in>set (descendants (fst (optimizeImages (cleanAttributes ?st1)))).
               \<exists>e\<in>set (descendants (fst ?st1)). keepsClassAndId e' e"
    by (rule optimizeImages_keeps)
  with assms(2) frag obtain e1 where e1: "e1 \<in> set (descendants (fst ?st1))" "keepsClassAndId e' e1"
    by blast
  from e1(1) have "e1 \<in> set (descendants (fst (fold (\<lambda>selector st'.
             let elements = querySelectorAll selector (fst st')
             in fold (\<lambda>el. removeElement (nid el)) elements st') noiseSelectors ?st0)))"
    by (simp add: removeNoise_def)
  from noiseLoop_clears[OF this] obtain e where e: "e \<in> set (descendants (fst ?st0))"
    "shallow e = shallow e1" and clear: "\<forall>sel\<in>set noiseSelectors. \<not> matches sel e1"
    by blast
  from e(1) have el: "isElement e" by (rule descendants_elements)
  from e1(1) have el1: "isElement e1" by (rule descendants_elements)
  from clear matches_shallow_eq[OF el el1 e(2)] have "\<forall>sel\<in>set noiseSelectors. \<not> matches sel e"
    by simp
  moreover from e(2) e1(2) have "nid e = nid e' \<and> tagOf e = tagOf e'"
    by (simp add: shallow_def keepsClassAndId_def)
  ultimately show ?thesis using e(1) by blast
qed

lemma noise_copy_absent:
  assumes run: "cleanContent (Some c) s = (Some fragment, s')"
    and i: "i < length (descendants c)"
    and sel: "sel \<in> set noiseSelectors" "matches sel (descendants c ! i)"
  shows "nid (descendants (fst (cloneNode True c s)) ! i) \<notin> nid ` set (descendants fragment)"
proof
  let ?copy = "fst (cloneNode True c s)"
  let ?ci = "descendants ?copy ! i"
  assume "nid ?ci \<in> nid ` set (descendants fragment)"
  then obtain e' where e': "e' \<in> set (descendants fragment)" "nid e' = nid ?ci" by auto
  have same: "map (\<lambda>e. (tagOf e, attributesOf e)) (descendants ?copy)
              = map (\<lambda>e. (tagOf e, attributesOf e)) (descendants c)"
    by (rule cloneNode_same_elements)
  then have len: "length (descendants ?copy) = length (descendants c)" by (rule map_eq_imp_length_eq)
  with i have ci: "?ci \<in> set (descendants ?copy)" by simp
  from i len have "map (\<lambda>e. (tagOf e, attributesOf e)) (descendants ?copy) ! i
                     = (tagOf ?ci, attributesOf ?ci)"
    and "map (\<lambda>e. (tagOf e, attributesOf e)) (descendants c) ! i
                     = (tagOf (descendants c ! i), attributesOf (descendants c ! i))"
    by simp_all
  with same have ta: "tagOf ?ci = tagOf (descendants c ! i)"
    "attributesOf ?ci = attributesOf (descendants c ! i)"
    by simp_all
  from i have "descendants c ! i \<in> set (descendants c)" by (rule nth_mem)
  then have "isElement (descendants c ! i)" by (rule descendants_elements)
  moreover from ci have "isElement ?ci" by (rule descendants_elements)
  ultimately have m: "matches sel ?ci" using sel(2) ta by (simp add: matches_shallow)
  from fragment_origin[OF run e'(1)] obtain e where e: "e \<in> set (descendants ?copy)"
    "nid e = nid e'" and clear: "\<forall>sel\<in>set noiseSelectors. \<not> matches sel e"
    by blast
  have "inj_on nid (set (descendants ?copy))"
    using cloneNode_distinct[of True c s] by (simp add: distinct_map)
  with e(1,2) e'(2) ci have "e = ?ci" by (auto dest: inj_onD)
  with clear sel(1) m show False by blast
qed

section \<open>The sanitizer: claims\<close>

text \<open>
  Claim C7. \<open>cleanContent\<close> changes no tree that exists when it is called: the
  document and the candidate in it are afterwards what they were before. The copy it
  works on is a deep copy (the candidate's tree, node for node, under new identities),
  and the fragment it returns consists of nodes created by the call only. The hypothesis
  says what \<open>nextId\<close> is: an identity no existing node has.
\<close>

theorem cleanContent_frame:
  assumes "\<forall>t\<in>set (trees s). \<forall>j\<in>set (idsOf t). j < nextId s"
  shows "trees (snd (cleanContent content s)) = trees s
         \<and> (\<forall>c. content = Some c \<longrightarrow> eraseIds (fst (cloneNode True c s)) = eraseIds c)
         \<and> (\<forall>fragment. fst (cleanContent content s) = Some fragment \<longrightarrow>
               (\<forall>j\<in>set (idsOf fragment). nextId s \<le> j))"
proof (cases content)
  case None
  then show ?thesis by (simp add: cleanContent_def)
next
  case (Some c)
  let ?I = "\<lambda>st. (\<forall>j\<in>set (idsOf (fst st)). nextId s \<le> j) \<and> trees (snd st) = trees s"
  have "?I (cloneNode True c s)" by (rule cloneNode_frame)
  then have "?I (removeNoise (cloneNode True c s))" by (rule removeNoise_frame[OF assms])
  then have "?I (cleanAttributes (removeNoise (cloneNode True c s)))"
    by (rule cleanAttributes_frame[OF assms])
  then have "?I (optimizeImages (cleanAttributes (removeNoise (cloneNode True c s))))"
    by (rule optimizeImages_frame[OF assms])
  moreover have "eraseIds (fst (cloneNode True c s)) = eraseIds c"
    using cloneTree_shape(1)[of c "nextId s"]
    by (simp add: cloneNode_def case_prod_beta)
  ultimately show ?thesis using Some by (simp add: cleanContent_def Let_def)
qed


theorem cleanContent_frame_witness:
  "list_all (\<lambda>t. list_all (\<lambda>j. j < nextId exState) (idsOf t)) (trees exState)
   \<and> trees (snd (cleanContent (Some exCandidate) exState)) = trees exState
   \<and> eraseIds (fst (cloneNode True exCandidate exState)) = eraseIds exCandidate
   \<and> list_all (\<lambda>j. nextId exState \<le> j)
        (case fst (cleanContent (Some exCandidate) exState) of None \<Rightarrow> [] | Some f \<Rightarrow> idsOf f)
   \<and> fst (cleanContent (Some exCandidate) exState) \<noteq> None"
proof -
  have h: "list_all (\<lambda>t. list_all (\<lambda>j. j < nextId exState) (idsOf t)) (trees exState)"
    by code_simp
  then have h': "\<forall>t\<in>set (trees exState). \<forall>j\<in>set (idsOf t). j < nextId exState"
    by (simp add: list_all_iff)
  have some: "fst (cleanContent (Some exCandidate) exState) \<noteq> None"
    by (simp add: cleanContent_def Let_def)
  from cleanContent_frame[OF h', of "Some exCandidate"] h some show ?thesis
    by (auto simp: list_all_iff)
qed

text \<open>
  The hypothesis is needed, and the statement is one about aliasing: were the copy to
  share identities with an existing tree (here \<open>nextId\<close> is stale and the copy of
  \<open>exRoot\<close> gets the identities of \<open>exRoot\<close>), the writes of the sanitizer
  would land in the document as well, and the \<open>p\<close> of the document would lose its
  attributes.
\<close>

lemma cleanContent_shared_identities_example:
  "trees (snd (cleanContent (Some exRoot) exStaleState))
     = [Document 0
          [Element 1 ''div''
             [(''src'', ''s''), (''onclick'', ''x()''), (''style'', ''c''), (''class'', ''k''),
              (''alt'', ''t'')]
             [Element 2 ''p'' [(''src'', ''s''), (''alt'', ''t'')] [Text 3 ''hi'']]]]
   \<and> trees (snd (cleanContent (Some exRoot) exStaleState)) \<noteq> trees exStaleState"
  by code_simp

text \<open>
  Claim C8, as amended. The elements below the root of the copy are the elements below
  the root of the candidate, in tree order and with the same tags and attributes, each
  under an identity of its own. Every element strictly below the root of the sanitized
  fragment is one of them. The copy of an element that lies below the root of the
  candidate, however deep, and matches a noise selector there is not among the elements
  below the root of the fragment; and no element strictly below the root of the fragment
  matches a noise selector.
\<close>

theorem cleanContent_noise_below_root:
  assumes "cleanContent (Some c) s = (Some fragment, s')"
  shows "map (\<lambda>e. (tagOf e, attributesOf e)) (descendants (fst (cloneNode True c s)))
           = map (\<lambda>e. (tagOf e, attributesOf e)) (descendants c)
         \<and> distinct (map nid (descendants (fst (cloneNode True c s))))
         \<and> (\<forall>e\<in>set (descendants fragment).
               nid e \<in> nid ` set (descendants (fst (cloneNode True c s))))
         \<and> (\<forall>i<length (descendants c).
               (\<exists>sel\<in>set noiseSelectors. matches sel (descendants c ! i)) \<longrightarrow>
               nid (descendants (fst (cloneNode True c s)) ! i) \<notin> nid ` set (descendants fragment))
         \<and> (\<forall>e\<in>set (descendants fragment). \<forall>sel\<in>set noiseSelectors. \<not> matches sel e)"
proof (intro conjI)
  show "map (\<lambda>e. (tagOf e, attributesOf e)) (descendants (fst (cloneNode True c s)))
           = map (\<lambda>e. (tagOf e, attributesOf e)) (descendants c)"
    by (rule cloneNode_same_elements)
  show "distinct (map nid (descendants (fst (cloneNode True c s))))"
    by (rule cloneNode_distinct)
  show "\<forall>e\<in>set (descendants fragment).
               nid e \<in> nid ` set (descendants (fst (cloneNode True c s)))"
  proof
    fix e' assume "e' \<in> set (descendants fragment)"
    from fragment_origin[OF assms this] obtain e
      where e: "e \<in> set (descendants (fst (cloneNode True c s)))" "nid e = nid e'" by blast
    from e(1) have "nid e \<in> nid ` set (descendants (fst (cloneNode True c s)))" by (rule imageI)
    with e(2) show "nid e' \<in> nid ` set (descendants (fst (cloneNode True c s)))" by simp
  qed
  show "\<forall>i<length (descendants c).
               (\<exists>sel\<in>set noiseSelectors. matches sel (descendants c ! i)) \<longrightarrow>
               nid (descendants (fst (cloneNode True c s)) ! i) \<notin> nid ` set (descendants fragment)"
    using noise_copy_absent[OF assms] by blast
  show "\<forall>e\<in>set (descendants fragment). \<forall>sel\<in>set noiseSelectors. \<not> matches sel e"
    using below_root_no_noise[OF assms] by blast
qed

theorem cleanContent_noise_below_root_witness:
  "cleanContent (Some exCandidate) exState = (Some exFragment, exState\<lparr>nextId := 110\<rparr>)
   \<and> ClassSel ''sidebar'' \<in> set noiseSelectors
   \<and> matches (ClassSel ''sidebar'') (descendants exCandidate ! 5)
   \<and> nid (descendants (fst (cloneNode True exCandidate exState)) ! 5)
       \<notin> nid ` set (descendants exFragment)
   \<and> TagSel ''nav'' \<in> set noiseSelectors
   \<and> matches (TagSel ''nav'') (descendants exCandidate ! 3)
   \<and> nid (descendants (fst (cloneNode True exCandidate exState)) ! 3)
       \<notin> nid ` set (descendants exFragment)
   \<and> list_all (\<lambda>e. list_all (\<lambda>sel. \<not> matches sel e) noiseSelectors) (descendants exFragment)"
proof -
  have h: "cleanContent (Some exCandidate) exState = (Some exFragment, exState\<lparr>nextId := 110\<rparr>)"
    by code_simp
  have len: "3 < length (descendants exCandidate)" "5 < length (descendants exCandidate)"
    by code_simp+
  have side: "ClassSel ''sidebar'' \<in> set noiseSelectors"
    "matches (ClassSel ''sidebar'') (descendants exCandidate ! 5)"
    by code_simp+
  have nav: "TagSel ''nav'' \<in> set noiseSelectors"
    "matches (TagSel ''nav'') (descendants exCandidate ! 3)"
    by code_simp+
  note c8 = cleanContent_noise_below_root[OF h]
  from c8 len(2) side
  have a: "nid (descendants (fst (cloneNode True exCandidate exState)) ! 5)
             \<notin> nid ` set (descendants exFragment)"
    by blast
  from c8 len(1) nav
  have b: "nid (descendants (fst (cloneNode True exCandidate exState)) ! 3)
             \<notin> nid ` set (descendants exFragment)"
    by blast
  from c8 have c: "list_all (\<lambda>e. list_all (\<lambda>sel. \<not> matches sel e) noiseSelectors)
                     (descendants exFragment)"
    by (simp add: list_all_iff)
  from h side nav a b c show ?thesis by simp
qed

text \<open>
  Claim C8 as stated fails at the root. In \<open>exAsideDocument\<close> the locator returns the
  \<open>aside\<close> of class \<open>content\<close>; its copy is the root of the fragment, an element
  of the fragment that matches the noise selector \<open>aside\<close>.
\<close>

theorem cleanContent_noise_root_counterexample:
  "extractMainContent exAsideDocument = Some exAside
   \<and> fst (cleanContent (Some exAside) exAsideState)
       = Some (Element 4 ''aside'' [(''class'', ''content'')] [Text 5 (replicate 120 CHR ''x'')])
   \<and> Element 4 ''aside'' [(''class'', ''content'')] [Text 5 (replicate 120 CHR ''x'')]
       \<in> set (inclusiveDescendants
                (Element 4 ''aside'' [(''class'', ''content'')] [Text 5 (replicate 120 CHR ''x'')]))
   \<and> TagSel ''aside'' \<in> set noiseSelectors
   \<and> matches (TagSel ''aside'')
        (Element 4 ''aside'' [(''class'', ''content'')] [Text 5 (replicate 120 CHR ''x'')])"
  by code_simp

text \<open>
  Claim C1 does not hold of the code. The tree walker of \<open>cleanAttributes\<close> starts on
  the root and \<open>nextNode\<close> moves off it before returning anything, so the root of
  the copy is never among the collected elements and keeps every attribute. In the
  fragment made from \<open>exRoot\<close> the root still has \<open>onclick\<close>, \<open>style\<close> and
  \<open>class\<close>, while the \<open>p\<close> below it, which had the same five attributes, keeps
  \<open>src\<close> and \<open>alt\<close> only.
\<close>

theorem cleanContent_root_keeps_attributes:
  "collectElements (createTreeWalker exRoot) [] = children exRoot
   \<and> map_option (\<lambda>fragment. map fst (attributesOf fragment))
        (fst (cleanContent (Some exRoot) exRootState))
       = Some [''src'', ''onclick'', ''style'', ''class'', ''alt'']
   \<and> map_option (\<lambda>fragment. map (\<lambda>e. (tagOf e, map fst (attributesOf e))) (descendants fragment))
        (fst (cleanContent (Some exRoot) exRootState))
       = Some [(''p'', [''src'', ''alt''])]"
  by code_simp

text \<open>
  The same holds of every element candidate: the root of the fragment has the tag and
  all the attributes of the candidate, in their order. Strictly below the root the
  stripping does what the claim says it does everywhere: only allow-listed attribute
  names remain.
\<close>

lemma cleanContent_root_unchanged:
  assumes "cleanContent (Some (Element i t as cs)) s = (Some fragment, s')"
  shows "tagOf fragment = t \<and> attributesOf fragment = as"
proof -
  let ?x = "(nextId s, t, as)"
  let ?I = "\<lambda>st. shallow (fst st) = ?x \<and> (\<forall>e\<in>set (descendants (fst st)). nid e \<noteq> fst ?x)"
  let ?st0 = "cloneNode True (Element i t as cs) s"
  have "?I ?st0" using root_kept_cloneNode[of i t as cs s] by simp
  then have "?I (removeNoise ?st0)" by (rule root_kept_removeNoise)
  then have "?I (cleanAttributes (removeNoise ?st0))" by (rule root_kept_cleanAttributes)
  then have "?I (optimizeImages (cleanAttributes (removeNoise ?st0)))"
    by (rule root_kept_optimizeImages)
  moreover from assms have "fragment = fst (optimizeImages (cleanAttributes (removeNoise ?st0)))"
    by (simp add: cleanContent_def Let_def)
  ultimately show ?thesis by (simp add: shallow_def)
qed


lemma cleanContent_below_root_allowed:
  assumes "cleanContent (Some c) s = (Some fragment, s')"
  shows "\<forall>e\<in>set (descendants fragment). \<forall>a\<in>fst ` set (attributesOf e). a \<in> set allowedAttributes"
proof -
  let ?st1 = "removeNoise (cloneNode True c s)"
  from assms have frag: "fragment = fst (optimizeImages (cleanAttributes ?st1))"
    by (simp add: cleanContent_def Let_def)
  have "\<forall>e\<in>set (descendants (fst (cleanAttributes ?st1))).
          \<forall>a\<in>fst ` set (attributesOf e). a \<in> set allowedAttributes"
    using cleanAttributes_allowed by blast
  then show ?thesis unfolding frag by (rule optimizeImages_allowed)
qed


section \<open>The core as a whole\<close>

lemma bindE_Inr [simp]: "bindE (Inr x) f = f x"
  by (simp add: bindE_def)

lemma bindE_Inl [simp]: "bindE (Inl e) f = Inl e"
  by (simp add: bindE_def)




lemma isValidContentOutcome_None: "isValidContentOutcome None = Inr False"
  by (simp add: isValidContentOutcome_def)


















end
